theory Spec2Isabelle
  imports Main "HOL-Library.Multiset" "HOL-Library.AList" "HOL-Library.Char_ord"
    "HOL-Library.List_Lexorder"
begin

section \<open>The parts of Go's standard library that the code calls\<close>

text \<open>
  A Go \<open>string\<close> is a sequence of bytes, and so is a \<open>string\<close> here: \<open>char\<close> is a byte,
  and the order on strings is the byte-wise lexicographic order that Go's \<open><\<close> on
  strings and \<open>sort.Strings\<close> use.
\<close>

subsection \<open>Package strings\<close>

text \<open>The case mappings of an ASCII byte.\<close>

definition toLower_byte :: "char \<Rightarrow> char" where
  "toLower_byte c =
     (if CHR ''A'' \<le> c \<and> c \<le> CHR ''Z'' then char_of (of_char c + (32::nat)) else c)"

definition toUpper_byte :: "char \<Rightarrow> char" where
  "toUpper_byte c =
     (if CHR ''a'' \<le> c \<and> c \<le> CHR ''z'' then char_of (of_char c - (32::nat)) else c)"

text \<open>\<open>strings.Trim(s, cutset)\<close>: the bytes of \<open>cutset\<close> are removed from both ends.\<close>

definition strings_Trim :: "string \<Rightarrow> string \<Rightarrow> string" where
  "strings_Trim s cutset =
     rev (dropWhile (\<lambda>c. c \<in> set cutset) (rev (dropWhile (\<lambda>c. c \<in> set cutset) s)))"

text \<open>\<open>strings.Join(a, sep)\<close>.\<close>

fun strings_Join :: "string list \<Rightarrow> string \<Rightarrow> string" where
  "strings_Join [] sep = []"
| "strings_Join [x] sep = x"
| "strings_Join (x # y # ys) sep = x @ sep @ strings_Join (y # ys) sep"

text \<open>
  \<open>strings.Replace(s, old, new, -1)\<close>: every occurrence of \<open>old\<close>, found from left to
  right without overlap, is replaced by \<open>new\<close>. With an empty \<open>old\<close>, \<open>new\<close> is put at
  the start and after every byte.
\<close>

function strings_Replace_from :: "string \<Rightarrow> string \<Rightarrow> string \<Rightarrow> string" where
  "strings_Replace_from [] old new = []"
| "strings_Replace_from (c # cs) old new =
     (if old \<noteq> [] \<and> take (length old) (c # cs) = old
      then new @ strings_Replace_from (drop (length old) (c # cs)) old new
      else c # strings_Replace_from cs old new)"
  by pat_completeness auto
termination
  by (relation "measure (\<lambda>(s, old, new). length s)") (auto simp: neq_Nil_conv)

definition strings_Replace :: "string \<Rightarrow> string \<Rightarrow> string \<Rightarrow> string" where
  "strings_Replace s old new =
     (if old = [] then new @ concat (map (\<lambda>c. c # new) s)
      else strings_Replace_from s old new)"

definition strings_HasSuffix :: "string \<Rightarrow> string \<Rightarrow> bool" where
  "strings_HasSuffix s suffix =
     (length suffix \<le> length s \<and> drop (length s - length suffix) s = suffix)"

subsection \<open>Packages sort and strconv\<close>

text \<open>
  \<open>sort.Strings\<close> sorts into increasing order. The order on strings is total, so the
  result does not depend on the algorithm.
\<close>

definition sort_Strings :: "string list \<Rightarrow> string list" where
  "sort_Strings a = sort a"

text \<open>\<open>strconv.FormatInt(i, 10)\<close>.\<close>

definition digit_char :: "nat \<Rightarrow> char" where
  "digit_char d = ''0123456789ABCDEF'' ! (d mod 16)"

function decimal :: "nat \<Rightarrow> string" where
  "decimal n = (if n < 10 then [digit_char n] else decimal (n div 10) @ [digit_char (n mod 10)])"
  by pat_completeness auto
termination
  by (relation "measure id") auto

definition strconv_FormatInt :: "int \<Rightarrow> string" where
  "strconv_FormatInt i = (if i < 0 then CHR ''-'' # decimal (nat (- i)) else decimal (nat i))"

subsection \<open>Package net/url\<close>

text \<open>
  \<open>url.Values\<close> and \<open>http.Header\<close> are Go maps from a string to a slice of strings. A map is
  an association list with distinct keys here; the order of the list is the order in
  which \<open>range\<close> visits the map, which Go leaves open.
\<close>

type_synonym Values = "(string \<times> string list) list"

text \<open>
  \<open>url.QueryEscape\<close>: letters, digits and \<open>- _ . ~\<close> stay, a space becomes \<open>+\<close>, and every
  other byte becomes \<open>%\<close> and two upper-case hexadecimal digits.
\<close>

definition isAlnum :: "char \<Rightarrow> bool" where
  "isAlnum c = ((CHR ''a'' \<le> c \<and> c \<le> CHR ''z'') \<or> (CHR ''A'' \<le> c \<and> c \<le> CHR ''Z'') \<or>
     (CHR ''0'' \<le> c \<and> c \<le> CHR ''9''))"

definition shouldEscape :: "char \<Rightarrow> bool" where
  "shouldEscape c = (\<not> (isAlnum c \<or> c \<in> set ''-_.~''))"

definition escape_byte :: "char \<Rightarrow> string" where
  "escape_byte c =
     (if c = CHR '' '' then ''+''
      else if shouldEscape c
        then [CHR ''%'', digit_char (of_char c div 16), digit_char (of_char c mod 16)]
      else [c])"

definition url_QueryEscape :: "string \<Rightarrow> string" where
  "url_QueryEscape s = concat (map escape_byte s)"

subsection \<open>Package net/http\<close>

type_synonym Header = "(string \<times> string list) list"

text \<open>
  \<open>textproto.CanonicalMIMEHeaderKey\<close>: a key made of token bytes only gets its first
  letter and every letter after a hyphen in upper case and the other letters in lower
  case; any other key is returned as it is.
\<close>

definition validHeaderFieldByte :: "char \<Rightarrow> bool" where
  "validHeaderFieldByte c =
     (isAlnum c \<or> c \<in> set ''!#$%&*+-.^_`|~'' \<or> c = char_of (39::nat))"

fun canonicalMIMEHeaderKey :: "bool \<Rightarrow> string \<Rightarrow> string" where
  "canonicalMIMEHeaderKey upper [] = []"
| "canonicalMIMEHeaderKey upper (c # cs) =
     (let c' = (if upper then toUpper_byte c else toLower_byte c)
      in c' # canonicalMIMEHeaderKey (c' = CHR ''-'') cs)"

definition CanonicalMIMEHeaderKey :: "string \<Rightarrow> string" where
  "CanonicalMIMEHeaderKey s =
     (if list_all validHeaderFieldByte s then canonicalMIMEHeaderKey True s else s)"

text \<open>
  \<open>Header.Get\<close>, \<open>Header.Set\<close> and \<open>Header.Del\<close> work on the canonical form of the key they are
  given. Indexing the map directly (\<open>h[k]\<close>, as \<open>range\<close> does) uses the key as it is.
\<close>

definition Header_Get :: "Header \<Rightarrow> string \<Rightarrow> string" where
  "Header_Get h key =
     (case map_of h (CanonicalMIMEHeaderKey key) of
        None \<Rightarrow> [] | Some [] \<Rightarrow> [] | Some (v # vs) \<Rightarrow> v)"

definition Header_Set :: "Header \<Rightarrow> string \<Rightarrow> string \<Rightarrow> Header" where
  "Header_Set h key v = AList.update (CanonicalMIMEHeaderKey key) [v] h"

definition Header_Del :: "Header \<Rightarrow> string \<Rightarrow> Header" where
  "Header_Del h key = AList.delete (CanonicalMIMEHeaderKey key) h"

text \<open>A missing key of a Go map reads as the nil slice.\<close>

definition index_map :: "(string \<times> 'v list) list \<Rightarrow> string \<Rightarrow> 'v list" where
  "index_map m k = (case map_of m k of None \<Rightarrow> [] | Some v \<Rightarrow> v)"

section \<open>Multipart uploads (s3/multi.go)\<close>

subsection \<open>Errors and the retry primitives\<close>

text \<open>
  A Go \<open>error\<close> value. The S3 client's own error type carries the service's condition code;
  every other error (transport failures, a failed seek, \<open>errors.New\<close>) carries its text only.
  A nil error is \<open>None\<close> of \<open>error option\<close>.
\<close>

datatype error = ServiceError string string | OtherError string

text \<open>
  Modelled from the spec: \<open>hasCode\<close> is defined in a file that is not among the sources. The
  spec has the error classification collaborator "recognize a specific no such upload
  condition code distinctly"; an error that is not a service error has no code.
\<close>

fun hasCode :: "error \<Rightarrow> string \<Rightarrow> bool" where
  "hasCode (ServiceError c msg) code = (c = code)"
| "hasCode (OtherError msg) code = False"

text \<open>
  Modelled from the spec: \<open>shouldRetry\<close> is defined in a file that is not among the sources.
  The spec has it "given an error from a call attempt, decide retryable vs. terminal"; the
  verdict on an error is the parameter \<open>cls\<close>, and a call that returned no error is not
  retried.
\<close>

fun shouldRetry :: "(error \<Rightarrow> bool) \<Rightarrow> error option \<Rightarrow> bool" where
  "shouldRetry cls None = False"
| "shouldRetry cls (Some e) = cls e"

text \<open>
  Modelled from the spec: the attempt strategy (\<open>attempts.Start\<close>, \<open>attempt.Next\<close>,
  \<open>attempt.HasNext\<close>) is defined in a package that is not among the sources. The spec has it
  as a bounded attempt sequence, "start an attempt sequence; advance; tell whether more
  attempts remain", with a budget that is full at the start. The strategy is the size of
  the budget; an attempt sequence is the number of attempts that remain.
\<close>

type_synonym AttemptStrategy = nat
type_synonym Attempt = nat

definition Start :: "AttemptStrategy \<Rightarrow> Attempt" where
  "Start attempts = attempts"

definition Next :: "Attempt \<Rightarrow> bool \<times> Attempt" where
  "Next attempt = (if attempt = 0 then (False, attempt) else (True, attempt - 1))"

definition HasNext :: "Attempt \<Rightarrow> bool" where
  "HasNext attempt = (0 < attempt)"

text \<open>
  What a call of an operation comes to: it returns its results, or it falls out of its
  retry loop into \<open>panic("unreachable")\<close>.
\<close>

datatype 'a outcome = Returned 'a | Unreachable

subsection \<open>The standard library's sort.Sort\<close>

text \<open>
  \<open>sort.Sort\<close> belongs to Go's standard library. It reads the data through \<open>Len\<close> and
  \<open>Less\<close> only and changes it through \<open>Swap\<close> only, and it is not stable. It is modelled by
  the library's insertion sort, which is what \<open>sort.Sort\<close> runs on a short slice:
  \<^verbatim>\<open>
  for i := a + 1; i < b; i++ {
      for j := i; j > a && data.Less(j, j-1); j-- {
          data.Swap(j, j-1)
      }
  }
  \<close>
  with \<open>a = 0\<close> and \<open>b = data.Len()\<close>.
\<close>

fun insertionSort_inner ::
  "('s \<Rightarrow> nat \<Rightarrow> nat \<Rightarrow> bool) \<Rightarrow> ('s \<Rightarrow> nat \<Rightarrow> nat \<Rightarrow> 's) \<Rightarrow> 's \<Rightarrow> nat \<Rightarrow> 's" where
  "insertionSort_inner lt swap data 0 = data"
| "insertionSort_inner lt swap data (Suc j) =
     (if lt data (Suc j) j then insertionSort_inner lt swap (swap data (Suc j) j) j
      else data)"

definition insertionSort ::
  "('s \<Rightarrow> nat \<Rightarrow> nat \<Rightarrow> bool) \<Rightarrow> ('s \<Rightarrow> nat \<Rightarrow> nat \<Rightarrow> 's) \<Rightarrow> 's \<Rightarrow> nat \<Rightarrow> 's" where
  "insertionSort lt swap data b = fold (\<lambda>i d. insertionSort_inner lt swap d i) [1..<b] data"

definition sort_Sort ::
  "('s \<Rightarrow> nat) \<Rightarrow> ('s \<Rightarrow> nat \<Rightarrow> nat \<Rightarrow> bool) \<Rightarrow> ('s \<Rightarrow> nat \<Rightarrow> nat \<Rightarrow> 's) \<Rightarrow> 's \<Rightarrow> 's" where
  "sort_Sort len lt swap data = insertionSort lt swap data (len data)"

subsection \<open>Parts and the completion manifest\<close>

text \<open>
  \<open>Part.N\<close> is a Go \<open>int\<close> and \<open>Part.Size\<close> an \<open>int64\<close>. The code only stores and compares
  them, so no arithmetic can overflow, and they are integers here.
\<close>

record Part =
  N :: int
  ETag :: string
  Size :: int

definition empty_Part :: Part where
  "empty_Part = \<lparr>N = 0, ETag = [], Size = 0\<rparr>"

type_synonym partSlice = "Part list"

definition partSlice_Len :: "partSlice \<Rightarrow> nat" where
  "partSlice_Len s = length s"

definition partSlice_Less :: "partSlice \<Rightarrow> nat \<Rightarrow> nat \<Rightarrow> bool" where
  "partSlice_Less s i j = (N (s ! i) < N (s ! j))"

definition partSlice_Swap :: "partSlice \<Rightarrow> nat \<Rightarrow> nat \<Rightarrow> partSlice" where
  "partSlice_Swap s i j = s[i := s ! j, j := s ! i]"

record completePart =
  PartNumber :: int
  completePart_ETag :: string

type_synonym completeParts = "completePart list"

definition completeParts_Len :: "completeParts \<Rightarrow> nat" where
  "completeParts_Len p = length p"

definition completeParts_Less :: "completeParts \<Rightarrow> nat \<Rightarrow> nat \<Rightarrow> bool" where
  "completeParts_Less p i j = (PartNumber (p ! i) < PartNumber (p ! j))"

definition completeParts_Swap :: "completeParts \<Rightarrow> nat \<Rightarrow> nat \<Rightarrow> completeParts" where
  "completeParts_Swap p i j = p[i := p ! j, j := p ! i]"

text \<open>
  The value of \<open>c.Parts\<close> that \<open>Complete\<close> hands to \<open>xml.Marshal\<close>: one entry per part, in
  the order given, then sorted.
\<close>

definition Complete_Parts :: "Part list \<Rightarrow> completeParts" where
  "Complete_Parts parts =
     sort_Sort completeParts_Len completeParts_Less completeParts_Swap
       (fold (\<lambda>p c. c @ [\<lparr>PartNumber = N p, completePart_ETag = ETag p\<rparr>]) parts [])"

text \<open>
  \<open>Complete\<close>. \<open>marshal\<close> stands for \<open>xml.Marshal\<close> on the \<open>completeUpload\<close> value, which
  writes the entries of \<open>Parts\<close> in slice order. The storage service is a script of the
  errors that \<open>query\<close> returns, one per attempt (\<open>None\<close> is a nil error); the result is
  \<open>None\<close> when the script ends before the operation does. Besides the error it returns, the
  model gives the request bodies it sent and what is left of the script.
\<close>

fun Complete_loop ::
  "(error \<Rightarrow> bool) \<Rightarrow> string \<Rightarrow> Attempt \<Rightarrow> error option list \<Rightarrow>
     (error option outcome \<times> string list \<times> error option list) option" where
  "Complete_loop cls data attempt [] =
     (if fst (Next attempt) then None else Some (Unreachable, [], []))"
| "Complete_loop cls data attempt (err # script) =
     (if fst (Next attempt) then
        (if shouldRetry cls err \<and> HasNext (snd (Next attempt)) then
           (case Complete_loop cls data (snd (Next attempt)) script of
              None \<Rightarrow> None
            | Some (r, sent, rest) \<Rightarrow> Some (r, data # sent, rest))
         else Some (Returned err, [data], script))
      else Some (Unreachable, [], err # script))"

definition Complete ::
  "AttemptStrategy \<Rightarrow> (error \<Rightarrow> bool) \<Rightarrow> (completeParts \<Rightarrow> error + string) \<Rightarrow> Part list \<Rightarrow>
     error option list \<Rightarrow> (error option outcome \<times> string list \<times> error option list) option" where
  "Complete attempts cls marshal parts script =
     (case marshal (Complete_Parts parts) of
        Inl err \<Rightarrow> Some (Returned (Some err), [], script)
      | Inr data \<Rightarrow> Complete_loop cls data (Start attempts) script)"

subsection \<open>Listing the parts of an upload\<close>

record listPartsResp =
  NextPartNumberMarker :: string
  IsTruncated :: bool
  Part :: "Part list"

text \<open>
  The storage service is a script: the list of what \<open>query\<close> returns, call after call,
  either an error or the decoded response. An operation gives \<open>None\<close> when the script
  ends before the operation does, and otherwise what it comes to, the parameters of the
  requests it sent, and what is left of the script.
\<close>

definition sent ::
  "'q \<Rightarrow> ('a \<times> 'q list \<times> 'r) option \<Rightarrow> ('a \<times> 'q list \<times> 'r) option" where
  "sent q res = (case res of None \<Rightarrow> None | Some (r, qs, rest) \<Rightarrow> Some (r, q # qs, rest))"

definition query_err :: "error + 'r \<Rightarrow> error option" where
  "query_err r = (case r of Inl e \<Rightarrow> Some e | Inr resp \<Rightarrow> None)"

fun ListParts_loop ::
  "AttemptStrategy \<Rightarrow> (error \<Rightarrow> bool) \<Rightarrow> Attempt \<Rightarrow> Values \<Rightarrow> partSlice \<Rightarrow>
     (error + listPartsResp) list \<Rightarrow>
     ((Part list \<times> error option) outcome \<times> Values list \<times> (error + listPartsResp) list) option"
  where
  "ListParts_loop attempts cls attempt params parts [] =
     (if fst (Next attempt) then None else Some (Unreachable, [], []))"
| "ListParts_loop attempts cls attempt params parts (r # script) =
     (if fst (Next attempt) then
        (if shouldRetry cls (query_err r) \<and> HasNext (snd (Next attempt)) then
           sent params (ListParts_loop attempts cls (snd (Next attempt)) params parts script)
         else
           (case r of
              Inl err \<Rightarrow> Some (Returned ([], Some err), [params], script)
            | Inr resp \<Rightarrow>
                (if \<not> IsTruncated resp then
                   Some (Returned (sort_Sort partSlice_Len partSlice_Less partSlice_Swap
                                     (parts @ Part resp), None), [params], script)
                 else
                   sent params
                     (ListParts_loop attempts cls (Start attempts)
                        (AList.update ''part-number-marker'' [NextPartNumberMarker resp] params)
                        (parts @ Part resp) script))))
      else Some (Unreachable, [], r # script))"

definition ListParts ::
  "AttemptStrategy \<Rightarrow> (error \<Rightarrow> bool) \<Rightarrow> int \<Rightarrow> string \<Rightarrow> (error + listPartsResp) list \<Rightarrow>
     ((Part list \<times> error option) outcome \<times> Values list \<times> (error + listPartsResp) list) option"
  where
  "ListParts attempts cls listPartsMax uploadId script =
     ListParts_loop attempts cls (Start attempts)
       [(''uploadId'', [uploadId]), (''max-parts'', [strconv_FormatInt listPartsMax])] [] script"

subsection \<open>Listing, finding and starting uploads\<close>

text \<open>A \<open>*Bucket\<close> is the name of the bucket; \<open>Initiated\<close> is a time or nil.\<close>

record Multi =
  Bucket :: string
  Key :: string
  UploadId :: string
  Initiated :: "int option"

record listMultiResp =
  NextKeyMarker :: string
  NextUploadIdMarker :: string
  IsTruncated :: bool
  Upload :: "Multi list"
  CommonPrefixes :: "string list"

fun ListMulti_loop ::
  "AttemptStrategy \<Rightarrow> (error \<Rightarrow> bool) \<Rightarrow> string \<Rightarrow> Attempt \<Rightarrow> Values \<Rightarrow> Multi list \<Rightarrow>
     string list \<Rightarrow> (error + listMultiResp) list \<Rightarrow>
     ((Multi list \<times> string list \<times> error option) outcome \<times> Values list \<times>
       (error + listMultiResp) list) option"
  where
  "ListMulti_loop attempts cls b attempt params multis prefixes [] =
     (if fst (Next attempt) then None else Some (Unreachable, [], []))"
| "ListMulti_loop attempts cls b attempt params multis prefixes (r # script) =
     (if fst (Next attempt) then
        (if shouldRetry cls (query_err r) \<and> HasNext (snd (Next attempt)) then
           sent params
             (ListMulti_loop attempts cls b (snd (Next attempt)) params multis prefixes script)
         else
           (case r of
              Inl err \<Rightarrow> Some (Returned ([], [], Some err), [params], script)
            | Inr resp \<Rightarrow>
                (if \<not> listMultiResp.IsTruncated resp then
                   Some (Returned (multis @ map (\<lambda>multi. multi\<lparr>Bucket := b\<rparr>) (Upload resp),
                                   prefixes @ CommonPrefixes resp, None), [params], script)
                 else
                   sent params
                     (ListMulti_loop attempts cls b (Start attempts)
                        (AList.update ''upload-id-marker'' [NextUploadIdMarker resp]
                           (AList.update ''key-marker'' [NextKeyMarker resp] params))
                        (multis @ map (\<lambda>multi. multi\<lparr>Bucket := b\<rparr>) (Upload resp))
                        (prefixes @ CommonPrefixes resp) script))))
      else Some (Unreachable, [], r # script))"

definition ListMulti ::
  "AttemptStrategy \<Rightarrow> (error \<Rightarrow> bool) \<Rightarrow> int \<Rightarrow> string \<Rightarrow> string \<Rightarrow> string \<Rightarrow>
     (error + listMultiResp) list \<Rightarrow>
     ((Multi list \<times> string list \<times> error option) outcome \<times> Values list \<times>
       (error + listMultiResp) list) option"
  where
  "ListMulti attempts cls listMultiMax b prefix delim script =
     ListMulti_loop attempts cls b (Start attempts)
       [(''uploads'', []), (''max-uploads'', [strconv_FormatInt listMultiMax]),
        (''prefix'', [prefix]), (''delimiter'', [delim])] [] [] script"

text \<open>
  \<open>InitMulti\<close>. Its loop has no \<open>HasNext\<close>: it goes on while the error is one to retry and
  \<open>Next\<close> allows, and the error of the last attempt decides. The script gives the
  \<open>UploadId\<close> of each response.
\<close>

fun InitMulti_loop ::
  "(error \<Rightarrow> bool) \<Rightarrow> Attempt \<Rightarrow> error option \<Rightarrow> string \<Rightarrow> (error + string) list \<Rightarrow>
     (error option \<times> string \<times> (error + string) list) option"
  where
  "InitMulti_loop cls attempt err resp [] =
     (if fst (Next attempt) then None else Some (err, resp, []))"
| "InitMulti_loop cls attempt err resp (r # script) =
     (if fst (Next attempt) then
        (let err' = query_err r;
             resp' = (case r of Inl e \<Rightarrow> resp | Inr uploadId \<Rightarrow> uploadId)
         in if \<not> shouldRetry cls err' then Some (err', resp', script)
            else InitMulti_loop cls (snd (Next attempt)) err' resp' script)
      else Some (err, resp, r # script))"

definition InitMulti ::
  "AttemptStrategy \<Rightarrow> (error \<Rightarrow> bool) \<Rightarrow> string \<Rightarrow> string \<Rightarrow> (error + string) list \<Rightarrow>
     ((Multi option \<times> error option) \<times> (error + string) list) option"
  where
  "InitMulti attempts cls b key script =
     (case InitMulti_loop cls (Start attempts) None [] script of
        None \<Rightarrow> None
      | Some (Some err, resp, rest) \<Rightarrow> Some ((None, Some err), rest)
      | Some (None, resp, rest) \<Rightarrow>
          Some ((Some \<lparr>Bucket = b, Key = key, UploadId = resp, Initiated = None\<rparr>, None), rest))"

text \<open>
  \<open>Bucket.Multi\<close>. The listing and the initiation each have their script. The result is
  what the call comes to and what is left of the two scripts.
\<close>

definition Bucket_Multi ::
  "AttemptStrategy \<Rightarrow> (error \<Rightarrow> bool) \<Rightarrow> int \<Rightarrow> string \<Rightarrow> string \<Rightarrow>
     (error + listMultiResp) list \<Rightarrow> (error + string) list \<Rightarrow>
     ((Multi option \<times> error option) outcome \<times> (error + listMultiResp) list \<times>
       (error + string) list) option"
  where
  "Bucket_Multi attempts cls listMultiMax b key lscript iscript =
     (case ListMulti attempts cls listMultiMax b key [] lscript of
        None \<Rightarrow> None
      | Some (Unreachable, reqs, lrest) \<Rightarrow> Some (Unreachable, lrest, iscript)
      | Some (Returned (multis, prefixes, err), reqs, lrest) \<Rightarrow>
          (if err \<noteq> None \<and> \<not> hasCode (the err) ''NoSuchUpload''
           then Some (Returned (None, err), lrest, iscript)
           else
             (case find (\<lambda>m. Key m = key) multis of
                Some m \<Rightarrow> Some (Returned (Some m, None), lrest, iscript)
              | None \<Rightarrow>
                  (case InitMulti attempts cls b key iscript of
                     None \<Rightarrow> None
                   | Some (res, irest) \<Rightarrow> Some (Returned res, lrest, irest)))))"

subsection \<open>Uploading a part\<close>

text \<open>
  What one attempt of \<open>PutPartHash\<close> meets: whether \<open>r.Seek(0, 0)\<close> and \<open>prepare\<close> fail, how
  many bytes of the payload the transport reads, and what \<open>run\<close> returns, an error or the
  headers of the response.
\<close>

record put_attempt =
  seek_err :: "error option"
  prepare_err :: "error option"
  run_reads :: nat
  run_result :: "error + Header"

text \<open>
  What happens to the payload source: a seek to an offset from a whence, and a run that
  starts reading at the offset the source is at.
\<close>

datatype payload_event = Seek int int | Run nat

text \<open>
  \<open>Seek(offset, whence)\<close> on a source that stands at \<open>pos\<close>: whence 0 counts from the
  start, and any other whence is taken from the current position (the code seeks from the
  start only).
\<close>

definition io_Seek :: "nat \<Rightarrow> int \<Rightarrow> int \<Rightarrow> nat" where
  "io_Seek pos offset whence = (if whence = 0 then nat offset else nat (int pos + offset))"

definition played ::
  "payload_event list \<Rightarrow> ('a \<times> payload_event list \<times> 'r) option \<Rightarrow>
     ('a \<times> payload_event list \<times> 'r) option" where
  "played evs res =
     (case res of None \<Rightarrow> None | Some (r, evs', rest) \<Rightarrow> Some (r, evs @ evs', rest))"

definition no_ETag :: error where
  "no_ETag = OtherError ''part upload succeeded with no ETag''"

text \<open>
  \<open>PutPartHash\<close>, with the part number \<open>n\<close>, the size, and the offset \<open>pos\<close> at which the
  payload source stands when the call is made. The request's headers and parameters do
  not change between attempts and are left out.
\<close>

fun PutPartHash_loop ::
  "(error \<Rightarrow> bool) \<Rightarrow> int \<Rightarrow> int \<Rightarrow> Attempt \<Rightarrow> nat \<Rightarrow> put_attempt list \<Rightarrow>
     ((Part \<times> error option) outcome \<times> payload_event list \<times> put_attempt list) option"
  where
  "PutPartHash_loop cls n partSize attempt pos [] =
     (if fst (Next attempt) then None else Some (Unreachable, [], []))"
| "PutPartHash_loop cls n partSize attempt pos (a # script) =
     (if fst (Next attempt) then
        (case seek_err a of
           Some err \<Rightarrow> Some (Returned (empty_Part, Some err), [Seek 0 0], script)
         | None \<Rightarrow>
             (case prepare_err a of
                Some err \<Rightarrow> Some (Returned (empty_Part, Some err), [Seek 0 0], script)
              | None \<Rightarrow>
                  (if shouldRetry cls (query_err (run_result a)) \<and> HasNext (snd (Next attempt))
                   then played [Seek 0 0, Run (io_Seek pos 0 0)]
                          (PutPartHash_loop cls n partSize (snd (Next attempt))
                             (io_Seek pos 0 0 + run_reads a) script)
                   else
                     (case run_result a of
                        Inl err \<Rightarrow>
                          Some (Returned (empty_Part, Some err),
                                [Seek 0 0, Run (io_Seek pos 0 0)], script)
                      | Inr hdr \<Rightarrow>
                          (if Header_Get hdr ''ETag'' = []
                           then Some (Returned (empty_Part, Some no_ETag),
                                      [Seek 0 0, Run (io_Seek pos 0 0)], script)
                           else Some (Returned (\<lparr>N = n, ETag = Header_Get hdr ''ETag'',
                                                  Size = partSize\<rparr>, None),
                                      [Seek 0 0, Run (io_Seek pos 0 0)], script))))))
      else Some (Unreachable, [], a # script))"

definition PutPartHash ::
  "AttemptStrategy \<Rightarrow> (error \<Rightarrow> bool) \<Rightarrow> int \<Rightarrow> int \<Rightarrow> nat \<Rightarrow> put_attempt list \<Rightarrow>
     ((Part \<times> error option) outcome \<times> payload_event list \<times> put_attempt list) option" where
  "PutPartHash attempts cls n partSize pos script =
     PutPartHash_loop cls n partSize (Start attempts) pos script"

section \<open>Signature Version 4 (s3/sign_v4.go)\<close>

subsection \<open>What the signer takes from outside\<close>

text \<open>
  The time functions, the hash functions of \<open>hash.go\<close> (thin wrappers of the crypto
  packages), the URL functions and the case mapping of the Unicode tables are parameters
  of the model. A time is a number.
\<close>

record library =
  time_Parse_ISO8601BasicFormat :: "string \<Rightarrow> int option"
  time_Parse_TimeFormat :: "string \<Rightarrow> int option"
  time_Now :: int
  Format_ISO8601BasicFormat :: "int \<Rightarrow> string"
  Format_ISO8601BasicFormatShort :: "int \<Rightarrow> string"
  SHA256Hex :: "string \<Rightarrow> string"
  HMAC :: "string \<Rightarrow> string \<Rightarrow> string"
  hex :: "string \<Rightarrow> string"
  URL_String :: "string \<Rightarrow> string"
  path_Clean :: "string \<Rightarrow> string"
  URL_Query :: "string \<Rightarrow> Values"
  Values_Encode :: "Values \<Rightarrow> string"
  Map_unicode_ToLower :: "string \<Rightarrow> string"

text \<open>
  \<open>strings.ToLower\<close>. A string of ASCII bytes is lower-cased byte by byte. Any other string
  goes through \<open>Map(unicode.ToLower, s)\<close>, which decodes the string as UTF-8, maps every
  letter by the Unicode tables and encodes the result again.
\<close>

definition strings_ToLower :: "library \<Rightarrow> string \<Rightarrow> string" where
  "strings_ToLower lib s =
     (if list_all (\<lambda>c. of_char c < (128::nat)) s
      then map toLower_byte s
      else Map_unicode_ToLower lib s)"

record V4Signer =
  auth_AccessKey :: string
  auth_SecretKey :: string
  serviceName :: string
  region_Name :: string

record Request =
  Method :: string
  Host :: string
  Header :: Header
  Form :: Values
  URL_Path :: string
  URL_RawQuery :: string

subsection \<open>The canonical request\<close>

definition canonicalURI :: "library \<Rightarrow> string \<Rightarrow> string" where
  "canonicalURI lib u_Path =
     (let canonicalPath = URL_String lib u_Path;
          slash = strings_HasSuffix canonicalPath ''/'';
          canonicalPath = path_Clean lib canonicalPath;
          canonicalPath = (if canonicalPath = [] \<or> canonicalPath = ''.'' then ''/''
                           else canonicalPath)
      in if canonicalPath \<noteq> ''/'' \<and> slash then canonicalPath @ ''/'' else canonicalPath)"

text \<open>
  \<open>canonicalQueryString\<close>, on the mapping that \<open>u.Query()\<close> returns. The first loop fills
  \<open>keyValues\<close> and \<open>keys\<close>; \<open>query\<close> is read off \<open>keyValues\<close> in the order of the sorted keys.
\<close>

definition canonicalQueryString_pairs :: "string \<Rightarrow> string list \<Rightarrow> string" where
  "canonicalQueryString_pairs k vs =
     strings_Join (map (\<lambda>v. url_QueryEscape k @ ''='' @ url_QueryEscape v) vs) ''&''"

definition canonicalQueryString_keyValues :: "Values \<Rightarrow> (string \<times> string) list" where
  "canonicalQueryString_keyValues q =
     fold (\<lambda>(k, vs) keyValues.
             AList.update (url_QueryEscape k) (canonicalQueryString_pairs k vs) keyValues) q []"

definition canonicalQueryString_keys :: "Values \<Rightarrow> string list" where
  "canonicalQueryString_keys q = sort_Strings (map (\<lambda>(k, vs). url_QueryEscape k) q)"

definition canonicalQueryString_query :: "Values \<Rightarrow> string list" where
  "canonicalQueryString_query q =
     map (\<lambda>key. case map_of (canonicalQueryString_keyValues q) key of
                  None \<Rightarrow> [] | Some s \<Rightarrow> s)
       (canonicalQueryString_keys q)"

definition canonicalQueryString :: "Values \<Rightarrow> string" where
  "canonicalQueryString q =
     strings_Replace (strings_Join (canonicalQueryString_query q) ''&'') ''+'' ''%20''"

text \<open>
  \<open>canonicalHeaders\<close>. \<open>lowerCase\<close> is filled in the order in which \<open>range\<close> visits the
  header; where two keys have the same lower-case form, the one visited last stays. The
  slice \<open>a\<close> has one slot per key of the header; the loop fills one slot per key of
  \<open>lowerCase\<close>, with the name and the joined values, and the slots left over stay empty.
\<close>

definition canonicalHeaders_lowerCase :: "library \<Rightarrow> Header \<Rightarrow> Header" where
  "canonicalHeaders_lowerCase lib h =
     fold (\<lambda>(k, v) lowerCase. AList.update (strings_ToLower lib k) v lowerCase) h []"

definition canonicalHeaders_keys :: "library \<Rightarrow> Header \<Rightarrow> string list" where
  "canonicalHeaders_keys lib h = sort_Strings (map fst (canonicalHeaders_lowerCase lib h))"

definition canonicalHeaders_entries :: "library \<Rightarrow> Header \<Rightarrow> (string \<times> string) list" where
  "canonicalHeaders_entries lib h =
     map (\<lambda>k. (strings_ToLower lib k,
               strings_Join
                 (sort_Strings
                    (map (\<lambda>w. strings_Trim w '' '') (index_map (canonicalHeaders_lowerCase lib h) k)))
                 '',''))
       (canonicalHeaders_keys lib h)"

definition canonicalHeaders_a :: "library \<Rightarrow> Header \<Rightarrow> string list" where
  "canonicalHeaders_a lib h =
     map (\<lambda>(name, values). name @ '':'' @ values) (canonicalHeaders_entries lib h) @
     replicate (length h - length (canonicalHeaders_entries lib h)) []"

definition canonicalHeaders :: "library \<Rightarrow> Header \<Rightarrow> string" where
  "canonicalHeaders lib h = strings_Join (canonicalHeaders_a lib h) [CHR 0x0A]"

text \<open>
  \<open>canonicalHeaders\<close> trims and sorts the values in place, in the slices that \<open>lowerCase\<close>
  took from the header: this is the header afterwards.
\<close>

fun canonicalHeaders_header :: "library \<Rightarrow> Header \<Rightarrow> Header" where
  "canonicalHeaders_header lib [] = []"
| "canonicalHeaders_header lib ((k, v) # h) =
     (if strings_ToLower lib k \<in> set (map (\<lambda>(k', v'). strings_ToLower lib k') h)
      then (k, v) else (k, sort_Strings (map (\<lambda>w. strings_Trim w '' '') v)))
     # canonicalHeaders_header lib h"

text \<open>\<open>signedHeaders\<close>: the slice \<open>a\<close> after sorting, and its joined form.\<close>

definition signedHeaders_a :: "library \<Rightarrow> Header \<Rightarrow> string list" where
  "signedHeaders_a lib h = sort_Strings (map (\<lambda>(k, v). strings_ToLower lib k) h)"

definition signedHeaders :: "library \<Rightarrow> Header \<Rightarrow> string" where
  "signedHeaders lib h = strings_Join (signedHeaders_a lib h) '';''"

definition canonicalRequest :: "library \<Rightarrow> Request \<Rightarrow> string \<Rightarrow> string" where
  "canonicalRequest lib req payloadHash =
     Method req @ [CHR 0x0A] @
     canonicalURI lib (URL_Path req) @ [CHR 0x0A] @
     canonicalQueryString (URL_Query lib (URL_RawQuery req)) @ [CHR 0x0A] @
     canonicalHeaders lib (Header req) @ [CHR 0x0A, CHR 0x0A] @
     signedHeaders lib (Header req) @ [CHR 0x0A] @
     payloadHash"

subsection \<open>The signature\<close>

definition credentialScope :: "library \<Rightarrow> V4Signer \<Rightarrow> int \<Rightarrow> string" where
  "credentialScope lib s t =
     Format_ISO8601BasicFormatShort lib t @ ''/'' @ region_Name s @ ''/'' @ serviceName s @
     ''/aws4_request''"

definition stringToSign :: "library \<Rightarrow> V4Signer \<Rightarrow> int \<Rightarrow> string \<Rightarrow> string" where
  "stringToSign lib s t creq =
     ''AWS4-HMAC-SHA256'' @ [CHR 0x0A] @
     Format_ISO8601BasicFormat lib t @ [CHR 0x0A] @
     credentialScope lib s t @ [CHR 0x0A] @
     SHA256Hex lib creq"

definition derivedKey :: "library \<Rightarrow> V4Signer \<Rightarrow> int \<Rightarrow> string" where
  "derivedKey lib s t =
     HMAC lib
       (HMAC lib
          (HMAC lib
             (HMAC lib (''AWS4'' @ auth_SecretKey s) (Format_ISO8601BasicFormatShort lib t))
             (region_Name s))
          (serviceName s))
       ''aws4_request''"

definition signature :: "library \<Rightarrow> V4Signer \<Rightarrow> int \<Rightarrow> string \<Rightarrow> string" where
  "signature lib s t sts = hex lib (HMAC lib (derivedKey lib s t) sts)"

definition authorization :: "library \<Rightarrow> V4Signer \<Rightarrow> Header \<Rightarrow> int \<Rightarrow> string \<Rightarrow> string" where
  "authorization lib s header t sig =
     ''AWS4-HMAC-SHA256 '' @
     ''Credential='' @ auth_AccessKey s @ ''/'' @ credentialScope lib s t @ '', '' @
     ''SignedHeaders='' @ signedHeaders lib header @ '', '' @
     ''Signature='' @ sig"

subsection \<open>Signing a request\<close>

definition requestTime :: "library \<Rightarrow> Request \<Rightarrow> int \<times> Request" where
  "requestTime lib req =
     (case time_Parse_ISO8601BasicFormat lib (Header_Get (Header req) ''x-amz-date'') of
        Some t \<Rightarrow> (t, req)
      | None \<Rightarrow>
          (case time_Parse_TimeFormat lib (Header_Get (Header req) ''x-amz-date'') of
             Some t \<Rightarrow>
               (t, req\<lparr>Header :=
                        Header_Set (Header req) ''x-amz-date'' (Format_ISO8601BasicFormat lib t)\<rparr>)
           | None \<Rightarrow>
               (case time_Parse_TimeFormat lib (Header_Get (Header req) ''date'') of
                  Some t \<Rightarrow> (t, req)
                | None \<Rightarrow>
                    (time_Now lib,
                     req\<lparr>Header :=
                          Header_Set (Header req) ''x-amz-date''
                            (Format_ISO8601BasicFormat lib (time_Now lib))\<rparr>))))"

text \<open>
  \<open>Sign\<close> up to the call of \<open>canonicalRequest\<close>: the time, the request as it stands then,
  and the payload hash.
\<close>

definition presigning :: "Request \<Rightarrow> bool" where
  "presigning req = (map_of (Form req) ''X-Amz-Expires'' \<noteq> None)"

definition Sign_prepare ::
  "library \<Rightarrow> V4Signer \<Rightarrow> Request \<Rightarrow> string \<Rightarrow> int \<times> Request \<times> string" where
  "Sign_prepare lib s req payloadHash =
     (let payloadHash = (if payloadHash = [] then SHA256Hex lib [] else payloadHash);
          req = req\<lparr>Header := Header_Set (Header req) ''host'' (Host req)\<rparr>;
          (t, req) = requestTime lib req
      in if presigning req then
           (let req = req\<lparr>Header := Header_Del (Header req) ''x-amz-date''\<rparr>;
                req = req\<lparr>Form :=
                  AList.update ''X-Amz-SignedHeaders'' [signedHeaders lib (Header req)] (Form req)\<rparr>;
                req = req\<lparr>Form := AList.update ''X-Amz-Algorithm'' [''AWS4-HMAC-SHA256''] (Form req)\<rparr>;
                req = req\<lparr>Form :=
                  AList.update ''X-Amz-Credential''
                    [auth_AccessKey s @ ''/'' @ credentialScope lib s t] (Form req)\<rparr>;
                req = req\<lparr>Form :=
                  AList.update ''X-Amz-Date'' [Format_ISO8601BasicFormat lib t] (Form req)\<rparr>;
                req = req\<lparr>URL_RawQuery := Values_Encode lib (Form req)\<rparr>
            in (t, req, ''UNSIGNED-PAYLOAD''))
         else
           (t, req\<lparr>Header := Header_Set (Header req) ''x-amz-content-sha256'' payloadHash\<rparr>,
            payloadHash))"

text \<open>
  \<open>Sign\<close>: the request as it is left. \<open>canonicalRequest\<close> returns no error, so \<open>Sign\<close>
  returns nil.
\<close>

definition Sign :: "library \<Rightarrow> V4Signer \<Rightarrow> Request \<Rightarrow> string \<Rightarrow> Request" where
  "Sign lib s req payloadHash =
     (let (t, req, payloadHash) = Sign_prepare lib s req payloadHash;
          creq = canonicalRequest lib req payloadHash;
          req = req\<lparr>Header := canonicalHeaders_header lib (Header req)\<rparr>;
          sts = stringToSign lib s t creq;
          sig = signature lib s t sts;
          auth = authorization lib s (Header req) t sig
      in if presigning req
         then req\<lparr>Form := AList.update ''X-Amz-Signature'' [sig] (Form req)\<rparr>
         else req\<lparr>Header := Header_Set (Header req) ''Authorization'' auth\<rparr>)"

section \<open>Auxiliary functions of the proofs\<close>

text \<open>
  Insertion into a list that is kept in descending order of the key: what the inner loop
  of the insertion sort does to the reversed prefix of the slice.
\<close>

fun insert_desc :: "('a \<Rightarrow> 'k::linorder) \<Rightarrow> 'a \<Rightarrow> 'a list \<Rightarrow> 'a list" where
  "insert_desc key x [] = [x]"
| "insert_desc key x (y # ys) =
     (if key x < key y then y # insert_desc key x ys else x # y # ys)"

text \<open>
  The replies that one page costs when it is fetched after some failed attempts, and the
  script of a listing made of such pages.
\<close>

definition page_attempts :: "error list \<Rightarrow> 'r \<Rightarrow> (error + 'r) list" where
  "page_attempts fs p = map Inl fs @ [Inr p]"

definition pages_script :: "(error list \<times> 'r) list \<Rightarrow> (error + 'r) list" where
  "pages_script blocks = concat (map (\<lambda>(fs, p). page_attempts fs p) blocks)"

text \<open>An attempt of \<open>PutPartHash\<close> that is retried when the budget allows.\<close>

definition retried :: "(error \<Rightarrow> bool) \<Rightarrow> put_attempt \<Rightarrow> bool" where
  "retried cls a =
     (seek_err a = None \<and> prepare_err a = None \<and>
      (case run_result a of Inl err \<Rightarrow> cls err | Inr hdr \<Rightarrow> False))"

text \<open>
  A history of the payload source in which every run starts at offset 0 right after a
  seek to the start, and nothing else happens but a last seek.
\<close>

fun rewound :: "payload_event list \<Rightarrow> bool" where
  "rewound [] = True"
| "rewound [Seek offset whence] = (offset = 0 \<and> whence = 0)"
| "rewound (Seek offset whence # Run p # evs) =
     (offset = 0 \<and> whence = 0 \<and> p = 0 \<and> rewound evs)"
| "rewound evs = False"

fun seeks :: "payload_event list \<Rightarrow> nat" where
  "seeks [] = 0"
| "seeks (Seek offset whence # evs) = Suc (seeks evs)"
| "seeks (Run p # evs) = seeks evs"

text \<open>
  The encoding that the specification asks of the canonical query string: the percent
  encoding of every byte that is not a letter, a digit or one of \<open>- _ . ~\<close>; a space is
  such a byte.
\<close>

definition percent_encode_byte :: "char \<Rightarrow> string" where
  "percent_encode_byte c =
     (if shouldEscape c
      then [CHR ''%'', digit_char (of_char c div 16), digit_char (of_char c mod 16)]
      else [c])"

definition percent_encode :: "string \<Rightarrow> string" where
  "percent_encode s = concat (map percent_encode_byte s)"

text \<open>
  A library for the examples: no date parses, the clock stands at 0, the hash functions
  return a fixed string and the other string functions return their argument.
\<close>

definition example_library :: library where
  "example_library =
     \<lparr>time_Parse_ISO8601BasicFormat = (\<lambda>s. None),
      time_Parse_TimeFormat = (\<lambda>s. None),
      time_Now = 0,
      Format_ISO8601BasicFormat = (\<lambda>t. ''19700101T000000Z''),
      Format_ISO8601BasicFormatShort = (\<lambda>t. ''19700101''),
      SHA256Hex = (\<lambda>s. ''sha256''),
      HMAC = (\<lambda>k m. ''hmac''),
      hex = (\<lambda>s. s),
      URL_String = (\<lambda>s. s),
      path_Clean = (\<lambda>s. s),
      URL_Query = (\<lambda>s. []),
      Values_Encode = (\<lambda>v. []),
      Map_unicode_ToLower = (\<lambda>s. s)\<rparr>"

text \<open>A signer and a request that carries a host header of its own.\<close>

definition example_signer :: V4Signer where
  "example_signer =
     \<lparr>auth_AccessKey = ''AK'', auth_SecretKey = ''SK'', serviceName = ''s3'',
      region_Name = ''us-east-1''\<rparr>"

definition example_request :: Request where
  "example_request =
     \<lparr>Method = ''GET'', Host = ''example.com'', Header = [(''Host'', [''other''])], Form = [],
      URL_Path = ''/'', URL_RawQuery = []\<rparr>"

section \<open>sort.Sort sorts\<close>

lemma mset_insert_desc: "mset (insert_desc key x r) = add_mset x (mset r)"
  by (induction r) auto

lemma set_insert_desc: "set (insert_desc key x r) = insert x (set r)"
  by (induction r) auto

lemma sorted_insert_desc:
  "sorted (rev (map key r)) \<Longrightarrow> sorted (rev (map key (insert_desc key x r)))"
  by (induction r) (auto simp: sorted_append set_insert_desc)

lemma insertionSort_inner_insert:
  assumes lt: "\<And>s i j. lt s i j = (key (s ! i) < key (s ! j))"
    and swap: "\<And>s i j. swap s i j = s[i := s ! j, j := s ! i]"
  shows "insertionSort_inner lt swap (xs @ x # zs) (length xs) =
           rev (insert_desc key x (rev xs)) @ zs"
proof (induction xs arbitrary: zs rule: rev_induct)
  case Nil
  show ?case by simp
next
  case (snoc y xs)
  have nth1: "(xs @ y # x # zs) ! Suc (length xs) = x"
    by (metis append.assoc append_Cons append_Nil length_append_singleton nth_append_length)
  have nth0: "(xs @ y # x # zs) ! length xs = y"
    by simp
  have sw: "(xs @ y # x # zs)[Suc (length xs) := y, length xs := x] = xs @ x # y # zs"
    by (simp add: list_update_append)
  show ?case
  proof (cases "key x < key y")
    case True
    then show ?thesis
      using snoc.IH [of "y # zs"] nth1 nth0 sw by (simp add: lt swap)
  next
    case False
    then show ?thesis
      using nth1 nth0 by (simp add: lt swap)
  qed
qed

lemma insertionSort_prefix:
  assumes lt: "\<And>s i j. lt s i j = (key (s ! i) < key (s ! j))"
    and swap: "\<And>s i j. swap s i j = s[i := s ! j, j := s ! i]"
  shows "k \<le> length s \<Longrightarrow>
     length (insertionSort lt swap s k) = length s \<and>
     mset (insertionSort lt swap s k) = mset s \<and>
     sorted (map key (take k (insertionSort lt swap s k)))"
proof (induction k)
  case 0
  show ?case by (simp add: insertionSort_def)
next
  case (Suc k)
  show ?case
  proof (cases "k = 0")
    case True
    then show ?thesis by (cases s) (simp_all add: insertionSort_def)
  next
    case False
    define t where "t = insertionSort lt swap s k"
    from Suc have len: "length t = length s" and ms: "mset t = mset s"
      and so: "sorted (map key (take k t))" by (simp_all add: t_def)
    have k: "k < length t" using Suc.prems len by simp
    have step: "insertionSort lt swap s (Suc k) = insertionSort_inner lt swap t k"
      using False by (simp add: insertionSort_def t_def)
    have dec: "t = take k t @ t ! k # drop (Suc k) t"
      using k by (simp add: id_take_nth_drop)
    have lk: "length (take k t) = k" using k by simp
    have "insertionSort_inner lt swap (take k t @ t ! k # drop (Suc k) t) (length (take k t)) =
        rev (insert_desc key (t ! k) (rev (take k t))) @ drop (Suc k) t"
      by (rule insertionSort_inner_insert) (simp_all add: lt swap)
    then have res: "insertionSort_inner lt swap t k =
        rev (insert_desc key (t ! k) (rev (take k t))) @ drop (Suc k) t"
      using dec lk by simp
    have l2: "length (rev (insert_desc key (t ! k) (rev (take k t)))) = Suc k"
      using lk by (metis length_rev mset_insert_desc size_add_mset size_mset)
    have s2: "sorted (map key (rev (insert_desc key (t ! k) (rev (take k t)))))"
      using sorted_insert_desc [of key "rev (take k t)" "t ! k"] so by (simp add: rev_map)
    have m2: "mset (rev (insert_desc key (t ! k) (rev (take k t))) @ drop (Suc k) t) = mset t"
      by (subst (3) dec) (simp add: mset_insert_desc)
    show ?thesis
      unfolding step res using l2 s2 m2 ms len
      by (metis append_eq_conv_conj size_mset)
  qed
qed

lemma sort_Sort_keyed:
  assumes len: "\<And>s. len s = length s"
    and lt: "\<And>s i j. lt s i j = (key (s ! i) < key (s ! j))"
    and swap: "\<And>s i j. swap s i j = s[i := s ! j, j := s ! i]"
  shows "sorted (map key (sort_Sort len lt swap s))"
    and "mset (sort_Sort len lt swap s) = mset s"
proof -
  have "length (insertionSort lt swap s (length s)) = length s \<and>
     mset (insertionSort lt swap s (length s)) = mset s \<and>
     sorted (map key (take (length s) (insertionSort lt swap s (length s))))"
    by (rule insertionSort_prefix) (simp_all add: lt swap)
  then have l: "length (insertionSort lt swap s (length s)) = length s"
    and m: "mset (insertionSort lt swap s (length s)) = mset s"
    and t: "sorted (map key (take (length s) (insertionSort lt swap s (length s))))"
    by blast+
  from t l show "sorted (map key (sort_Sort len lt swap s))"
    by (metis order_refl sort_Sort_def len take_all)
  from m show "mset (sort_Sort len lt swap s) = mset s"
    by (simp add: sort_Sort_def len)
qed


lemma Complete_Parts_fold:
  "fold (\<lambda>p c. c @ [\<lparr>PartNumber = N p, completePart_ETag = ETag p\<rparr>]) parts c0 =
     c0 @ map (\<lambda>p. \<lparr>PartNumber = N p, completePart_ETag = ETag p\<rparr>) parts"
  by (induction parts arbitrary: c0) simp_all

lemma Complete_Parts_sorted: "sorted (map PartNumber (Complete_Parts parts))"
  unfolding Complete_Parts_def
  by (rule sort_Sort_keyed(1))
     (simp_all add: completeParts_Len_def completeParts_Less_def completeParts_Swap_def)

lemma Complete_Parts_mset:
  "mset (Complete_Parts parts) =
     mset (map (\<lambda>p. \<lparr>PartNumber = N p, completePart_ETag = ETag p\<rparr>) parts)"
proof -
  have "mset (Complete_Parts parts) =
      mset (fold (\<lambda>p c. c @ [\<lparr>PartNumber = N p, completePart_ETag = ETag p\<rparr>]) parts [])"
    unfolding Complete_Parts_def
    by (rule sort_Sort_keyed(2) [where key = PartNumber])
       (simp_all add: completeParts_Len_def completeParts_Less_def completeParts_Swap_def)
  then show ?thesis by (simp add: Complete_Parts_fold)
qed

lemma sorted_keys_unique:
  fixes key :: "'a \<Rightarrow> 'k::linorder"
  assumes "sorted (map key xs)" "sorted (map key ys)" "mset xs = mset ys"
  shows "map key xs = map key ys"
proof -
  have "mset (map key xs) = mset (map key ys)" using assms(3) by (metis mset_map)
  then show ?thesis using assms(1,2) by (metis properties_for_sort)
qed

lemma Complete_loop_sent:
  "Complete_loop cls data attempt script = Some (r, bodies, rest) \<Longrightarrow> set bodies \<subseteq> {data}"
proof (induction script arbitrary: attempt r bodies rest)
  case Nil
  then show ?case by (simp split: if_splits)
next
  case (Cons err script)
  show ?case
  proof (cases "fst (Next attempt) \<and> shouldRetry cls err \<and> HasNext (snd (Next attempt))")
    case True
    with Cons.prems obtain bodies' where
      "Complete_loop cls data (snd (Next attempt)) script = Some (r, bodies', rest)"
      and "bodies = data # bodies'"
      by (auto split: option.splits)
    then show ?thesis using Cons.IH by auto
  next
    case False
    with Cons.prems show ?thesis by (auto split: if_splits)
  qed
qed

lemma Complete_sent:
  assumes "Complete attempts cls marshal parts script = Some (r, bodies, rest)"
  shows "\<forall>b\<in>set bodies. marshal (Complete_Parts parts) = Inr b"
proof (cases "marshal (Complete_Parts parts)")
  case (Inl err)
  with assms show ?thesis by (simp add: Complete_def)
next
  case (Inr data)
  with assms have "Complete_loop cls data (Start attempts) script = Some (r, bodies, rest)"
    by (simp add: Complete_def)
  then have "set bodies \<subseteq> {data}" by (rule Complete_loop_sent)
  then show ?thesis using Inr by auto
qed

text \<open>
  Claim C1. Whatever the order of the parts given to \<open>Complete\<close> and whatever their
  numbers, the manifest that is marshalled has one entry per part, in ascending order of
  the part number; two orders of the same parts give the same sequence of part numbers,
  and the same manifest when no number occurs twice; and every request body that
  \<open>Complete\<close> sends is that manifest, marshalled.
\<close>

theorem Complete_manifest_sorted:
  assumes "mset parts' = mset parts"
  shows "sorted (map PartNumber (Complete_Parts parts)) \<and>
         mset (Complete_Parts parts) =
           mset (map (\<lambda>p. \<lparr>PartNumber = N p, completePart_ETag = ETag p\<rparr>) parts) \<and>
         map PartNumber (Complete_Parts parts') = map PartNumber (Complete_Parts parts) \<and>
         (distinct (map N parts) \<longrightarrow> Complete_Parts parts' = Complete_Parts parts) \<and>
         (\<forall>r bodies rest. Complete attempts cls marshal parts script = Some (r, bodies, rest) \<longrightarrow>
            (\<forall>b\<in>set bodies. marshal (Complete_Parts parts) = Inr b))"
proof -
  let ?cp = "\<lambda>p. \<lparr>PartNumber = N p, completePart_ETag = ETag p\<rparr>"
  have m: "mset (Complete_Parts parts') = mset (Complete_Parts parts)"
    using assms by (metis Complete_Parts_mset mset_map)
  have keys: "map PartNumber (Complete_Parts parts') = map PartNumber (Complete_Parts parts)"
    using m by (intro sorted_keys_unique Complete_Parts_sorted)
  have "Complete_Parts parts' = Complete_Parts parts" if d: "distinct (map N parts)"
  proof -
    have "map PartNumber (map ?cp parts) = map N parts" by simp
    then have "distinct (map PartNumber (map ?cp parts))" using d by (simp only:)
    then have "inj_on PartNumber (set (map ?cp parts))"
      using distinct_map by blast
    moreover have "set (Complete_Parts parts) = set (map ?cp parts)"
      by (metis Complete_Parts_mset set_mset_mset)
    moreover have "set (Complete_Parts parts') = set (map ?cp parts)"
      by (metis m Complete_Parts_mset set_mset_mset)
    ultimately have "inj_on PartNumber (set (Complete_Parts parts') \<union> set (Complete_Parts parts))"
      by simp
    then show ?thesis using keys by (rule inj_on_map_eq_map [THEN iffD1])
  qed
  moreover have "\<forall>r bodies rest. Complete attempts cls marshal parts script = Some (r, bodies, rest) \<longrightarrow>
            (\<forall>b\<in>set bodies. marshal (Complete_Parts parts) = Inr b)"
    using Complete_sent by blast
  ultimately show ?thesis
    using Complete_Parts_sorted Complete_Parts_mset keys by blast
qed

lemma Complete_Parts_example:
  "Complete_Parts [\<lparr>N = 2, ETag = ''E2'', Size = 32\<rparr>, \<lparr>N = 1, ETag = ''E1'', Size = 64\<rparr>] =
     [\<lparr>PartNumber = 1, completePart_ETag = ''E1''\<rparr>, \<lparr>PartNumber = 2, completePart_ETag = ''E2''\<rparr>]"
  by (simp add: Complete_Parts_def sort_Sort_def insertionSort_def completeParts_Len_def
      completeParts_Less_def completeParts_Swap_def upt_conv_Cons)

lemma Complete_example:
  "Complete (Suc 0) (\<lambda>e. False) (\<lambda>c. Inr (concat (map (\<lambda>p. completePart_ETag p) c)))
     [\<lparr>N = 2, ETag = ''E2'', Size = 32\<rparr>, \<lparr>N = 1, ETag = ''E1'', Size = 64\<rparr>] [None] =
   Some (Returned None, [''E1E2''], [])"
  by (simp add: Complete_def Complete_Parts_example Start_def Next_def HasNext_def)

text \<open>The example of the specification: parts 2 and 1 are submitted as 1, 2.\<close>

theorem Complete_manifest_sorted_witness:
  "mset [\<lparr>N = 1, ETag = ''E1'', Size = 64\<rparr>, \<lparr>N = 2, ETag = ''E2'', Size = 32\<rparr>] =
     mset [\<lparr>N = 2, ETag = ''E2'', Size = 32\<rparr>, \<lparr>N = 1, ETag = ''E1'', Size = 64\<rparr>] \<and>
   distinct (map N [\<lparr>N = 2, ETag = ''E2'', Size = 32\<rparr>, \<lparr>N = 1, ETag = ''E1'', Size = 64\<rparr>]) \<and>
   Complete_Parts [\<lparr>N = 1, ETag = ''E1'', Size = 64\<rparr>, \<lparr>N = 2, ETag = ''E2'', Size = 32\<rparr>] =
     Complete_Parts [\<lparr>N = 2, ETag = ''E2'', Size = 32\<rparr>, \<lparr>N = 1, ETag = ''E1'', Size = 64\<rparr>] \<and>
   map PartNumber
     (Complete_Parts [\<lparr>N = 2, ETag = ''E2'', Size = 32\<rparr>, \<lparr>N = 1, ETag = ''E1'', Size = 64\<rparr>]) =
     [1, 2] \<and>
   Complete (Suc 0) (\<lambda>e. False) (\<lambda>c. Inr (concat (map (\<lambda>p. completePart_ETag p) c)))
     [\<lparr>N = 2, ETag = ''E2'', Size = 32\<rparr>, \<lparr>N = 1, ETag = ''E1'', Size = 64\<rparr>] [None] =
     Some (Returned None, [''E1E2''], []) \<and>
   (\<lambda>c. Inr (concat (map (\<lambda>p. completePart_ETag p) c)))
     (Complete_Parts [\<lparr>N = 2, ETag = ''E2'', Size = 32\<rparr>, \<lparr>N = 1, ETag = ''E1'', Size = 64\<rparr>]) =
   (Inr ''E1E2'' :: error + string)"
proof -
  let ?a = "[\<lparr>N = 1, ETag = ''E1'', Size = 64\<rparr>, \<lparr>N = 2, ETag = ''E2'', Size = 32\<rparr>]"
  let ?b = "[\<lparr>N = 2, ETag = ''E2'', Size = 32\<rparr>, \<lparr>N = 1, ETag = ''E1'', Size = 64\<rparr>]"
  let ?marshal = "\<lambda>c. Inr (concat (map (\<lambda>p. completePart_ETag p) c)) :: error + string"
  have h: "mset ?a = mset ?b" by simp
  have d: "distinct (map N ?b)" by simp
  note T = Complete_manifest_sorted [OF h, of "Suc 0" "\<lambda>e. False" ?marshal "[None]"]
  have eq: "Complete_Parts ?a = Complete_Parts ?b" using T d by blast
  have keys: "map PartNumber (Complete_Parts ?b) = [1, 2]" by (simp add: Complete_Parts_example)
  have bodies: "?marshal (Complete_Parts ?b) = Inr ''E1E2''"
    using T Complete_example by simp
  show ?thesis using h d eq keys Complete_example bodies by blast
qed

section \<open>The paginated listings\<close>

lemma Next_pos: "0 < a \<Longrightarrow> Next a = (True, a - 1)"
  by (simp add: Next_def)

lemma Next_zero: "Next 0 = (False, 0)"
  by (simp add: Next_def)

lemma sent_funpow_Some:
  "(sent q ^^ n) (Some (x, qs, rest)) = Some (x, replicate n q @ qs, rest)"
  by (induction n) (simp_all add: sent_def replicate_app_Cons_same)

lemma sent_funpow_None: "(sent q ^^ n) None = None"
  by (induction n) (simp_all add: sent_def)

lemma pages_script_Cons:
  "pages_script ((fs, p) # blocks) = map Inl fs @ Inr p # pages_script blocks"
  by (simp add: pages_script_def page_attempts_def)

lemma pages_script_Nil: "pages_script [] = []"
  by (simp add: pages_script_def)

lemma ListParts_loop_retries:
  "list_all cls fs \<Longrightarrow> length fs < a \<Longrightarrow>
   ListParts_loop attempts cls a params parts (map Inl fs @ r) =
     (sent params ^^ length fs) (ListParts_loop attempts cls (a - length fs) params parts r)"
proof (induction fs arbitrary: a)
  case Nil
  show ?case by simp
next
  case (Cons e fs)
  from Cons.prems have a: "0 < a" "0 < a - 1" "length fs < a - 1" and e: "cls e" and fs: "list_all cls fs"
    by simp_all
  have "ListParts_loop attempts cls a params parts (map Inl (e # fs) @ r) =
      sent params (ListParts_loop attempts cls (a - 1) params parts (map Inl fs @ r))"
    using a e by (simp add: Next_pos HasNext_def query_err_def)
  also have "\<dots> = sent params ((sent params ^^ length fs)
      (ListParts_loop attempts cls (a - 1 - length fs) params parts r))"
    using Cons.IH [OF fs a(3)] by simp
  finally show ?case by (simp add: funpow_swap1)
qed

lemma ListParts_loop_final:
  "0 < a \<Longrightarrow> \<not> listPartsResp.IsTruncated p \<Longrightarrow>
   ListParts_loop attempts cls a params parts (Inr p # r) =
     Some (Returned (sort_Sort partSlice_Len partSlice_Less partSlice_Swap (parts @ Part p), None),
           [params], r)"
  by (simp add: Next_pos query_err_def)

lemma ListParts_loop_truncated:
  "0 < a \<Longrightarrow> listPartsResp.IsTruncated p \<Longrightarrow>
   ListParts_loop attempts cls a params parts (Inr p # r) =
     sent params (ListParts_loop attempts cls (Start attempts)
       (AList.update ''part-number-marker'' [NextPartNumberMarker p] params) (parts @ Part p) r)"
  by (simp add: Next_pos query_err_def)

declare ListParts_loop.simps [simp del]

lemma ListParts_loop_pages:
  assumes "list_all (\<lambda>(fs, p). length fs < attempts \<and> list_all cls fs \<and>
             listPartsResp.IsTruncated p) blocks"
    and "length fs' < attempts" and "list_all cls fs'" and "\<not> listPartsResp.IsTruncated p'"
  shows "\<exists>reqs. ListParts_loop attempts cls (Start attempts) params parts
           (pages_script (blocks @ [(fs', p')]) @ rest) =
         Some (Returned (sort_Sort partSlice_Len partSlice_Less partSlice_Swap
                 (parts @ concat (map (\<lambda>(fs, p). Part p) (blocks @ [(fs', p')]))), None),
               reqs, rest)"
  using assms(1)
proof (induction blocks arbitrary: params parts)
  case Nil
  have "ListParts_loop attempts cls (Start attempts) params parts (map Inl fs' @ Inr p' # rest) =
      (sent params ^^ length fs')
        (ListParts_loop attempts cls (attempts - length fs') params parts (Inr p' # rest))"
    using ListParts_loop_retries [OF assms(3), of attempts attempts params parts] assms(2)
    by (simp add: Start_def)
  also have "\<dots> = (sent params ^^ length fs')
      (Some (Returned (sort_Sort partSlice_Len partSlice_Less partSlice_Swap (parts @ Part p'), None),
           [params], rest))"
    using assms(2,4) by (simp add: ListParts_loop_final)
  finally show ?case
    by (simp add: sent_funpow_Some pages_script_Cons pages_script_Nil)
next
  case (Cons blk blocks)
  obtain fs p where blk: "blk = (fs, p)" by (cases blk)
  from Cons.prems blk have fs: "length fs < attempts" "list_all cls fs"
    and p: "listPartsResp.IsTruncated p"
    and rest': "list_all (\<lambda>(fs, p). length fs < attempts \<and> list_all cls fs \<and>
             listPartsResp.IsTruncated p) blocks"
    by simp_all
  let ?params = "AList.update ''part-number-marker'' [NextPartNumberMarker p] params"
  obtain reqs where IH: "ListParts_loop attempts cls (Start attempts) ?params (parts @ Part p)
           (pages_script (blocks @ [(fs', p')]) @ rest) =
         Some (Returned (sort_Sort partSlice_Len partSlice_Less partSlice_Swap
                 ((parts @ Part p) @ concat (map (\<lambda>(fs, p). Part p) (blocks @ [(fs', p')]))), None),
               reqs, rest)"
    using Cons.IH [OF rest'] by blast
  have "ListParts_loop attempts cls (Start attempts) params parts
      (map Inl fs @ Inr p # pages_script (blocks @ [(fs', p')]) @ rest) =
      (sent params ^^ length fs)
        (ListParts_loop attempts cls (attempts - length fs) params parts
           (Inr p # pages_script (blocks @ [(fs', p')]) @ rest))"
    using ListParts_loop_retries [OF fs(2), of attempts attempts params parts] fs(1)
    by (simp add: Start_def)
  also have "\<dots> = (sent params ^^ length fs) (sent params
      (ListParts_loop attempts cls (Start attempts) ?params (parts @ Part p)
         (pages_script (blocks @ [(fs', p')]) @ rest)))"
    using fs(1) p by (simp add: ListParts_loop_truncated)
  finally show ?case
    using IH by (simp add: blk sent_funpow_Some sent_def pages_script_Cons)
qed


lemma ListMulti_loop_retries:
  "list_all cls fs \<Longrightarrow> length fs < a \<Longrightarrow>
   ListMulti_loop attempts cls b a params multis prefixes (map Inl fs @ r) =
     (sent params ^^ length fs)
       (ListMulti_loop attempts cls b (a - length fs) params multis prefixes r)"
proof (induction fs arbitrary: a)
  case Nil
  show ?case by simp
next
  case (Cons e fs)
  from Cons.prems have a: "0 < a" "0 < a - 1" "length fs < a - 1" and e: "cls e"
    and fs: "list_all cls fs"
    by simp_all
  have "ListMulti_loop attempts cls b a params multis prefixes (map Inl (e # fs) @ r) =
      sent params (ListMulti_loop attempts cls b (a - 1) params multis prefixes (map Inl fs @ r))"
    using a e by (simp add: Next_pos HasNext_def query_err_def)
  also have "\<dots> = sent params ((sent params ^^ length fs)
      (ListMulti_loop attempts cls b (a - 1 - length fs) params multis prefixes r))"
    using Cons.IH [OF fs a(3)] by simp
  finally show ?case by (simp add: funpow_swap1)
qed

lemma ListMulti_loop_final:
  "0 < a \<Longrightarrow> \<not> listMultiResp.IsTruncated p \<Longrightarrow>
   ListMulti_loop attempts cls b a params multis prefixes (Inr p # r) =
     Some (Returned (multis @ map (\<lambda>multi. multi\<lparr>Bucket := b\<rparr>) (Upload p),
                     prefixes @ CommonPrefixes p, None), [params], r)"
  by (simp add: Next_pos query_err_def)

lemma ListMulti_loop_truncated:
  "0 < a \<Longrightarrow> listMultiResp.IsTruncated p \<Longrightarrow>
   ListMulti_loop attempts cls b a params multis prefixes (Inr p # r) =
     sent params (ListMulti_loop attempts cls b (Start attempts)
       (AList.update ''upload-id-marker'' [NextUploadIdMarker p]
          (AList.update ''key-marker'' [NextKeyMarker p] params))
       (multis @ map (\<lambda>multi. multi\<lparr>Bucket := b\<rparr>) (Upload p))
       (prefixes @ CommonPrefixes p) r)"
  by (simp add: Next_pos query_err_def)

declare ListMulti_loop.simps [simp del]

lemma ListMulti_loop_pages:
  assumes "list_all (\<lambda>(fs, p). length fs < attempts \<and> list_all cls fs \<and>
             listMultiResp.IsTruncated p) blocks"
    and "length fs' < attempts" and "list_all cls fs'" and "\<not> listMultiResp.IsTruncated p'"
  shows "\<exists>reqs. ListMulti_loop attempts cls b (Start attempts) params multis prefixes
           (pages_script (blocks @ [(fs', p')]) @ rest) =
         Some (Returned
                 (multis @ concat (map (\<lambda>(fs, p). map (\<lambda>multi. multi\<lparr>Bucket := b\<rparr>) (Upload p))
                                     (blocks @ [(fs', p')])),
                  prefixes @ concat (map (\<lambda>(fs, p). CommonPrefixes p) (blocks @ [(fs', p')])),
                  None),
               reqs, rest)"
  using assms(1)
proof (induction blocks arbitrary: params multis prefixes)
  case Nil
  have "ListMulti_loop attempts cls b (Start attempts) params multis prefixes
        (map Inl fs' @ Inr p' # rest) =
      (sent params ^^ length fs')
        (ListMulti_loop attempts cls b (attempts - length fs') params multis prefixes
           (Inr p' # rest))"
    using ListMulti_loop_retries [OF assms(3), of attempts attempts] assms(2)
    by (simp add: Start_def)
  also have "\<dots> = (sent params ^^ length fs')
      (Some (Returned (multis @ map (\<lambda>multi. multi\<lparr>Bucket := b\<rparr>) (Upload p'),
                     prefixes @ CommonPrefixes p', None), [params], rest))"
    using assms(2,4) by (simp add: ListMulti_loop_final)
  finally show ?case
    by (simp add: sent_funpow_Some pages_script_Cons pages_script_Nil)
next
  case (Cons blk blocks)
  obtain fs p where blk: "blk = (fs, p)" by (cases blk)
  from Cons.prems blk have fs: "length fs < attempts" "list_all cls fs"
    and p: "listMultiResp.IsTruncated p"
    and rest': "list_all (\<lambda>(fs, p). length fs < attempts \<and> list_all cls fs \<and>
             listMultiResp.IsTruncated p) blocks"
    by simp_all
  let ?params = "AList.update ''upload-id-marker'' [NextUploadIdMarker p]
          (AList.update ''key-marker'' [NextKeyMarker p] params)"
  let ?multis = "multis @ map (\<lambda>multi. multi\<lparr>Bucket := b\<rparr>) (Upload p)"
  let ?prefixes = "prefixes @ CommonPrefixes p"
  obtain reqs where IH: "ListMulti_loop attempts cls b (Start attempts) ?params ?multis ?prefixes
           (pages_script (blocks @ [(fs', p')]) @ rest) =
         Some (Returned
                 (?multis @ concat (map (\<lambda>(fs, p). map (\<lambda>multi. multi\<lparr>Bucket := b\<rparr>) (Upload p))
                                     (blocks @ [(fs', p')])),
                  ?prefixes @ concat (map (\<lambda>(fs, p). CommonPrefixes p) (blocks @ [(fs', p')])),
                  None),
               reqs, rest)"
    using Cons.IH [OF rest'] by blast
  have "ListMulti_loop attempts cls b (Start attempts) params multis prefixes
      (map Inl fs @ Inr p # pages_script (blocks @ [(fs', p')]) @ rest) =
      (sent params ^^ length fs)
        (ListMulti_loop attempts cls b (attempts - length fs) params multis prefixes
           (Inr p # pages_script (blocks @ [(fs', p')]) @ rest))"
    using ListMulti_loop_retries [OF fs(2), of attempts attempts] fs(1)
    by (simp add: Start_def)
  also have "\<dots> = (sent params ^^ length fs) (sent params
      (ListMulti_loop attempts cls b (Start attempts) ?params ?multis ?prefixes
         (pages_script (blocks @ [(fs', p')]) @ rest)))"
    using fs(1) p by (simp add: ListMulti_loop_truncated)
  finally show ?case
    using IH by (simp add: blk sent_funpow_Some sent_def pages_script_Cons)
qed

lemma partSlice_sorted:
  "sorted (map N (sort_Sort partSlice_Len partSlice_Less partSlice_Swap s))"
  by (rule sort_Sort_keyed(1))
     (simp_all add: partSlice_Len_def partSlice_Less_def partSlice_Swap_def)

lemma partSlice_mset:
  "mset (sort_Sort partSlice_Len partSlice_Less partSlice_Swap s) = mset s"
  by (rule sort_Sort_keyed(2) [where key = N])
     (simp_all add: partSlice_Len_def partSlice_Less_def partSlice_Swap_def)

lemma partSlice_numbers:
  "map N (sort_Sort partSlice_Len partSlice_Less partSlice_Swap s) = sort (map N s)"
proof -
  have "mset (map N (sort_Sort partSlice_Len partSlice_Less partSlice_Swap s)) = mset (map N s)"
    by (metis partSlice_mset mset_map)
  then show ?thesis using partSlice_sorted by (metis properties_for_sort)
qed

lemma pages_script_no_failures:
  "pages_script (map (\<lambda>p. ([], p)) pages) = map Inr pages"
  by (induction pages) (simp_all add: pages_script_Nil pages_script_Cons)

text \<open>
  Claim C6. When the service answers with any pages, all truncated but the last, \<open>ListParts\<close>
  returns, with no error, the parts of all the pages in ascending order of the part
  number: a sorted permutation of the concatenation of the pages, whose numbers are the
  sorted numbers of all the parts, whatever their order in or across the pages.
\<close>

theorem ListParts_sorted_concat:
  assumes "0 < attempts" and "list_all listPartsResp.IsTruncated pages"
    and "\<not> listPartsResp.IsTruncated final"
  shows "\<exists>parts reqs.
           ListParts attempts cls listPartsMax uploadId (map Inr (pages @ [final]) @ rest) =
             Some (Returned (parts, None), reqs, rest) \<and>
           sorted (map N parts) \<and>
           mset parts = mset (concat (map Part (pages @ [final]))) \<and>
           map N parts = sort (map N (concat (map Part (pages @ [final]))))"
proof -
  let ?blocks = "map (\<lambda>p. ([] :: error list, p)) pages"
  let ?params = "[(''uploadId'', [uploadId]), (''max-parts'', [strconv_FormatInt listPartsMax])]"
  have blocks: "list_all (\<lambda>(fs, p). length fs < attempts \<and> list_all cls fs \<and>
             listPartsResp.IsTruncated p) ?blocks"
    using assms(1,2) by (simp add: list_all_iff)
  have script: "pages_script (?blocks @ [([], final)]) = map Inr (pages @ [final])"
    using pages_script_no_failures [of "pages @ [final]"] by simp
  have parts: "concat (map (\<lambda>(fs, p). Part p) (?blocks @ [([], final)])) =
      concat (map Part (pages @ [final]))"
    by (simp add: comp_def)
  obtain reqs where "ListParts_loop attempts cls (Start attempts) ?params []
           (pages_script (?blocks @ [([], final)]) @ rest) =
         Some (Returned (sort_Sort partSlice_Len partSlice_Less partSlice_Swap
                 ([] @ concat (map (\<lambda>(fs, p). Part p) (?blocks @ [([], final)]))), None),
               reqs, rest)"
    using ListParts_loop_pages [OF blocks, of "[]" final ?params "[]" rest] assms(1,3)
    by auto
  then have "ListParts attempts cls listPartsMax uploadId (map Inr (pages @ [final]) @ rest) =
      Some (Returned (sort_Sort partSlice_Len partSlice_Less partSlice_Swap
              (concat (map Part (pages @ [final]))), None), reqs, rest)"
    unfolding script parts by (simp add: ListParts_def)
  then show ?thesis
    using partSlice_sorted partSlice_mset partSlice_numbers by blast
qed


text \<open>Two pages, with the parts 3, 1 and 2: the result is 1, 2, 3.\<close>

theorem ListParts_sorted_concat_witness:
  "0 < Suc 0 \<and>
   list_all listPartsResp.IsTruncated
     [\<lparr>NextPartNumberMarker = ''2'', IsTruncated = True,
       Part = [\<lparr>N = 3, ETag = ''c'', Size = 5\<rparr>, \<lparr>N = 1, ETag = ''a'', Size = 5\<rparr>]\<rparr>] \<and>
   \<not> listPartsResp.IsTruncated
     \<lparr>NextPartNumberMarker = [], IsTruncated = False, Part = [\<lparr>N = 2, ETag = ''b'', Size = 5\<rparr>]\<rparr> \<and>
   (\<exists>parts reqs.
      ListParts (Suc 0) (\<lambda>e. False) 1000 ''id''
        (map Inr
           ([\<lparr>NextPartNumberMarker = ''2'', IsTruncated = True,
              Part = [\<lparr>N = 3, ETag = ''c'', Size = 5\<rparr>, \<lparr>N = 1, ETag = ''a'', Size = 5\<rparr>]\<rparr>] @
            [\<lparr>NextPartNumberMarker = [], IsTruncated = False,
              Part = [\<lparr>N = 2, ETag = ''b'', Size = 5\<rparr>]\<rparr>]) @ []) =
        Some (Returned (parts, None), reqs, []) \<and>
      map N parts = [1, 2, 3])"
proof -
  let ?pg1 = "\<lparr>NextPartNumberMarker = ''2'', IsTruncated = True,
       Part = [\<lparr>N = 3, ETag = ''c'', Size = 5\<rparr>, \<lparr>N = 1, ETag = ''a'', Size = 5\<rparr>]\<rparr>"
  let ?pg2 = "\<lparr>NextPartNumberMarker = [], IsTruncated = False,
       Part = [\<lparr>N = 2, ETag = ''b'', Size = 5\<rparr>]\<rparr>"
  have a: "0 < Suc 0" by simp
  have t: "list_all listPartsResp.IsTruncated [?pg1]" by simp
  have f: "\<not> listPartsResp.IsTruncated ?pg2" by simp
  have s: "sort (map N (concat (map Part ([?pg1] @ [?pg2])))) = [1, 2, 3]" by simp
  from ListParts_sorted_concat [OF a t f, of "\<lambda>e. False" 1000 "''id''" "[]"]
  obtain parts reqs where
    "ListParts (Suc 0) (\<lambda>e. False) 1000 ''id'' (map Inr ([?pg1] @ [?pg2]) @ []) =
       Some (Returned (parts, None), reqs, [])"
    and "map N parts = sort (map N (concat (map Part ([?pg1] @ [?pg2]))))"
    by (elim exE conjE)
  then have "\<exists>parts reqs.
      ListParts (Suc 0) (\<lambda>e. False) 1000 ''id'' (map Inr ([?pg1] @ [?pg2]) @ []) =
        Some (Returned (parts, None), reqs, []) \<and> map N parts = [1, 2, 3]"
    unfolding s by (intro exI conjI)
  with a t f show ?thesis by (intro conjI)
qed

text \<open>
  Claim C7. In \<open>ListParts\<close> and in \<open>ListMulti\<close>, every page may be preceded by failed attempts
  that are retried, as long as their number for that page stays below the budget: the
  budget is full again after each fetched page. The listing then returns what all the
  pages hold, so no retry loses what earlier pages gave.
\<close>

theorem pagination_resets_budget_keeps_pages:
  assumes "list_all (\<lambda>(fs, p). length fs < attempts \<and> list_all cls fs \<and>
             listPartsResp.IsTruncated p) pblocks"
    and "length pfs < attempts" and "list_all cls pfs" and "\<not> listPartsResp.IsTruncated pfinal"
    and "list_all (\<lambda>(fs, p). length fs < attempts \<and> list_all cls fs \<and>
             listMultiResp.IsTruncated p) mblocks"
    and "length mfs < attempts" and "list_all cls mfs" and "\<not> listMultiResp.IsTruncated mfinal"
  shows "(\<exists>reqs. ListParts attempts cls listPartsMax uploadId
                   (pages_script (pblocks @ [(pfs, pfinal)]) @ prest) =
            Some (Returned (sort_Sort partSlice_Len partSlice_Less partSlice_Swap
                             (concat (map (\<lambda>(fs, p). Part p) (pblocks @ [(pfs, pfinal)]))), None),
                  reqs, prest)) \<and>
         (\<exists>reqs. ListMulti attempts cls listMultiMax b prefix delim
                   (pages_script (mblocks @ [(mfs, mfinal)]) @ mrest) =
            Some (Returned
                    (concat (map (\<lambda>(fs, p). map (\<lambda>multi. multi\<lparr>Bucket := b\<rparr>) (Upload p))
                               (mblocks @ [(mfs, mfinal)])),
                     concat (map (\<lambda>(fs, p). CommonPrefixes p) (mblocks @ [(mfs, mfinal)])),
                     None),
                  reqs, mrest))"
proof
  show "\<exists>reqs. ListParts attempts cls listPartsMax uploadId
                   (pages_script (pblocks @ [(pfs, pfinal)]) @ prest) =
            Some (Returned (sort_Sort partSlice_Len partSlice_Less partSlice_Swap
                             (concat (map (\<lambda>(fs, p). Part p) (pblocks @ [(pfs, pfinal)]))), None),
                  reqs, prest)"
    using ListParts_loop_pages [OF assms(1-4), of _ "[]" prest]
    by (simp add: ListParts_def)
  show "\<exists>reqs. ListMulti attempts cls listMultiMax b prefix delim
                   (pages_script (mblocks @ [(mfs, mfinal)]) @ mrest) =
            Some (Returned
                    (concat (map (\<lambda>(fs, p). map (\<lambda>multi. multi\<lparr>Bucket := b\<rparr>) (Upload p))
                               (mblocks @ [(mfs, mfinal)])),
                     concat (map (\<lambda>(fs, p). CommonPrefixes p) (mblocks @ [(mfs, mfinal)])),
                     None),
                  reqs, mrest)"
    using ListMulti_loop_pages [OF assms(5-8), of b _ "[]" "[]" mrest]
    by (simp add: ListMulti_def)
qed

text \<open>
  The listing of the test suite: a page with two parts, an error that is retried, and a
  last page, with a budget of two attempts. Without the reset the error would be final.
\<close>

theorem pagination_resets_budget_keeps_pages_witness:
  "list_all (\<lambda>(fs, p). length fs < Suc (Suc 0) \<and> list_all (\<lambda>e::error. True) fs \<and>
      listPartsResp.IsTruncated p)
     [([], \<lparr>NextPartNumberMarker = ''2'', IsTruncated = True,
            Part = [\<lparr>N = 2, ETag = ''b'', Size = 5\<rparr>, \<lparr>N = 1, ETag = ''a'', Size = 5\<rparr>]\<rparr>)] \<and>
   length [ServiceError ''InternalError'' []] < Suc (Suc 0) \<and>
   list_all (\<lambda>e::error. True) [ServiceError ''InternalError'' []] \<and>
   \<not> listPartsResp.IsTruncated
       \<lparr>NextPartNumberMarker = [], IsTruncated = False, Part = [\<lparr>N = 3, ETag = ''c'', Size = 5\<rparr>]\<rparr> \<and>
   list_all (\<lambda>(fs, p). length fs < Suc (Suc 0) \<and> list_all (\<lambda>e::error. True) fs \<and>
      listMultiResp.IsTruncated p)
     [([], \<lparr>NextKeyMarker = ''k1'', NextUploadIdMarker = ''u1'', IsTruncated = True,
            Upload = [\<lparr>Bucket = [], Key = ''k1'', UploadId = ''u1'', Initiated = None\<rparr>],
            CommonPrefixes = [''a/'']\<rparr>)] \<and>
   \<not> listMultiResp.IsTruncated
       \<lparr>NextKeyMarker = [], NextUploadIdMarker = [], IsTruncated = False,
        Upload = [\<lparr>Bucket = [], Key = ''k2'', UploadId = ''u2'', Initiated = None\<rparr>],
        CommonPrefixes = [''b/'']\<rparr> \<and>
   (\<exists>reqs. ListParts (Suc (Suc 0)) (\<lambda>e::error. True) 1000 ''id''
        [Inr \<lparr>NextPartNumberMarker = ''2'', IsTruncated = True,
              Part = [\<lparr>N = 2, ETag = ''b'', Size = 5\<rparr>, \<lparr>N = 1, ETag = ''a'', Size = 5\<rparr>]\<rparr>,
         Inl (ServiceError ''InternalError'' []),
         Inr \<lparr>NextPartNumberMarker = [], IsTruncated = False,
              Part = [\<lparr>N = 3, ETag = ''c'', Size = 5\<rparr>]\<rparr>] =
      Some (Returned ([\<lparr>N = 1, ETag = ''a'', Size = 5\<rparr>, \<lparr>N = 2, ETag = ''b'', Size = 5\<rparr>,
                       \<lparr>N = 3, ETag = ''c'', Size = 5\<rparr>], None), reqs, [])) \<and>
   (\<exists>reqs. ListMulti (Suc (Suc 0)) (\<lambda>e::error. True) 1000 ''sample'' [] ''/''
        [Inr \<lparr>NextKeyMarker = ''k1'', NextUploadIdMarker = ''u1'', IsTruncated = True,
              Upload = [\<lparr>Bucket = [], Key = ''k1'', UploadId = ''u1'', Initiated = None\<rparr>],
              CommonPrefixes = [''a/'']\<rparr>,
         Inl (ServiceError ''InternalError'' []),
         Inr \<lparr>NextKeyMarker = [], NextUploadIdMarker = [], IsTruncated = False,
              Upload = [\<lparr>Bucket = [], Key = ''k2'', UploadId = ''u2'', Initiated = None\<rparr>],
              CommonPrefixes = [''b/'']\<rparr>] =
      Some (Returned ([\<lparr>Bucket = ''sample'', Key = ''k1'', UploadId = ''u1'', Initiated = None\<rparr>,
                       \<lparr>Bucket = ''sample'', Key = ''k2'', UploadId = ''u2'', Initiated = None\<rparr>],
                      [''a/'', ''b/''], None), reqs, []))"
proof -
  let ?cls = "\<lambda>e :: error. True"
  let ?err = "ServiceError ''InternalError'' []"
  let ?pg1 = "\<lparr>NextPartNumberMarker = ''2'', IsTruncated = True,
            Part = [\<lparr>N = 2, ETag = ''b'', Size = 5\<rparr>, \<lparr>N = 1, ETag = ''a'', Size = 5\<rparr>]\<rparr>"
  let ?pg2 = "\<lparr>NextPartNumberMarker = [], IsTruncated = False,
            Part = [\<lparr>N = 3, ETag = ''c'', Size = 5\<rparr>]\<rparr>"
  let ?m1 = "\<lparr>NextKeyMarker = ''k1'', NextUploadIdMarker = ''u1'', IsTruncated = True,
            Upload = [\<lparr>Bucket = [], Key = ''k1'', UploadId = ''u1'', Initiated = None\<rparr>],
            CommonPrefixes = [''a/'']\<rparr>"
  let ?m2 = "\<lparr>NextKeyMarker = [], NextUploadIdMarker = [], IsTruncated = False,
        Upload = [\<lparr>Bucket = [], Key = ''k2'', UploadId = ''u2'', Initiated = None\<rparr>],
        CommonPrefixes = [''b/'']\<rparr>"
  have p1: "list_all (\<lambda>(fs, p). length fs < Suc (Suc 0) \<and> list_all ?cls fs \<and>
      listPartsResp.IsTruncated p) [([], ?pg1)]" by simp
  have f2: "length [?err] < Suc (Suc 0)" by simp
  have f3: "list_all ?cls [?err]" by simp
  have p4: "\<not> listPartsResp.IsTruncated ?pg2" by simp
  have m1: "list_all (\<lambda>(fs, p). length fs < Suc (Suc 0) \<and> list_all ?cls fs \<and>
      listMultiResp.IsTruncated p) [([], ?m1)]" by simp
  have m4: "\<not> listMultiResp.IsTruncated ?m2" by simp
  have ps: "pages_script ([([], ?pg1)] @ [([?err], ?pg2)]) @ [] = [Inr ?pg1, Inl ?err, Inr ?pg2]"
    by (simp add: pages_script_def page_attempts_def)
  have ms: "pages_script ([([], ?m1)] @ [([?err], ?m2)]) @ [] = [Inr ?m1, Inl ?err, Inr ?m2]"
    by (simp add: pages_script_def page_attempts_def)
  have srt: "sort_Sort partSlice_Len partSlice_Less partSlice_Swap
      (concat (map (\<lambda>(fs, p). Part p) ([([], ?pg1)] @ [([?err], ?pg2)]))) =
      [\<lparr>N = 1, ETag = ''a'', Size = 5\<rparr>, \<lparr>N = 2, ETag = ''b'', Size = 5\<rparr>,
       \<lparr>N = 3, ETag = ''c'', Size = 5\<rparr>]"
    by (simp add: sort_Sort_def insertionSort_def partSlice_Len_def partSlice_Less_def
        partSlice_Swap_def upt_conv_Cons)
  have ups: "concat (map (\<lambda>(fs, p). map (\<lambda>multi. multi\<lparr>Bucket := ''sample''\<rparr>) (Upload p))
      ([([], ?m1)] @ [([?err], ?m2)])) =
      [\<lparr>Bucket = ''sample'', Key = ''k1'', UploadId = ''u1'', Initiated = None\<rparr>,
       \<lparr>Bucket = ''sample'', Key = ''k2'', UploadId = ''u2'', Initiated = None\<rparr>]"
    by simp
  have pfx: "concat (map (\<lambda>(fs, p). CommonPrefixes p) ([([], ?m1)] @ [([?err], ?m2)])) =
      [''a/'', ''b/'']"
    by simp
  note T = pagination_resets_budget_keeps_pages [OF p1 f2 f3 p4 m1 f2 f3 m4,
      of 1000 "''id''" "[]" 1000 "''sample''" "[]" "''/''" "[]"]
  have r1: "\<exists>reqs. ListParts (Suc (Suc 0)) ?cls 1000 ''id'' [Inr ?pg1, Inl ?err, Inr ?pg2] =
      Some (Returned ([\<lparr>N = 1, ETag = ''a'', Size = 5\<rparr>, \<lparr>N = 2, ETag = ''b'', Size = 5\<rparr>,
                       \<lparr>N = 3, ETag = ''c'', Size = 5\<rparr>], None), reqs, [])"
    using T [THEN conjunct1] unfolding ps srt .
  have r2: "\<exists>reqs. ListMulti (Suc (Suc 0)) ?cls 1000 ''sample'' [] ''/'' [Inr ?m1, Inl ?err, Inr ?m2] =
      Some (Returned ([\<lparr>Bucket = ''sample'', Key = ''k1'', UploadId = ''u1'', Initiated = None\<rparr>,
                       \<lparr>Bucket = ''sample'', Key = ''k2'', UploadId = ''u2'', Initiated = None\<rparr>],
                      [''a/'', ''b/''], None), reqs, [])"
    using T [THEN conjunct2] unfolding ms ups pfx .
  from p1 f2 f3 p4 m1 m4 r1 r2 show ?thesis by (intro conjI)
qed

section \<open>Uploading a part\<close>

lemma played_Some: "played evs (Some (r, evs', rest)) = Some (r, evs @ evs', rest)"
  by (simp add: played_def)

lemma played_None: "played evs None = None"
  by (simp add: played_def)

lemma played_played: "played evs (played evs' res) = played (evs @ evs') res"
  by (cases res) (auto simp: played_def)

lemma io_Seek_start: "io_Seek pos 0 0 = 0"
  by (simp add: io_Seek_def)

lemma PutPartHash_loop_retry:
  "0 < a - 1 \<Longrightarrow> retried cls x \<Longrightarrow>
   PutPartHash_loop cls n partSize a pos (x # s) =
     played [Seek 0 0, Run 0] (PutPartHash_loop cls n partSize (a - 1) (run_reads x) s)"
  by (cases "run_result x")
     (simp_all add: retried_def Next_def HasNext_def query_err_def io_Seek_start)

lemma PutPartHash_loop_seek_fails:
  "0 < a \<Longrightarrow> seek_err x = Some err \<Longrightarrow>
   PutPartHash_loop cls n partSize a pos (x # s) =
     Some (Returned (empty_Part, Some err), [Seek 0 0], s)"
  by (simp add: Next_pos)

lemma PutPartHash_loop_no_ETag:
  "0 < a \<Longrightarrow> seek_err x = None \<Longrightarrow> prepare_err x = None \<Longrightarrow> run_result x = Inr hdr \<Longrightarrow>
   Header_Get hdr ''ETag'' = [] \<Longrightarrow>
   PutPartHash_loop cls n partSize a pos (x # s) =
     Some (Returned (empty_Part, Some no_ETag), [Seek 0 0, Run 0], s)"
  by (simp add: Next_pos query_err_def io_Seek_start)

lemma PutPartHash_loop_retries:
  "list_all (retried cls) pre \<Longrightarrow> length pre < a \<Longrightarrow>
   \<exists>pos'. PutPartHash_loop cls n partSize a pos (pre @ s) =
     played (concat (map (\<lambda>x. [Seek 0 0, Run 0]) pre))
       (PutPartHash_loop cls n partSize (a - length pre) pos' s)"
proof (induction pre arbitrary: a pos)
  case Nil
  show ?case by (auto simp: played_def split: option.splits)
next
  case (Cons x pre)
  from Cons.prems have a: "0 < a - 1" "length pre < a - 1" and x: "retried cls x"
    and pre: "list_all (retried cls) pre"
    by simp_all
  obtain pos' where "PutPartHash_loop cls n partSize (a - 1) (run_reads x) (pre @ s) =
     played (concat (map (\<lambda>x. [Seek 0 0, Run 0]) pre))
       (PutPartHash_loop cls n partSize (a - 1 - length pre) pos' s)"
    using Cons.IH [OF pre a(2)] by blast
  then have "PutPartHash_loop cls n partSize a pos ((x # pre) @ s) =
     played (concat (map (\<lambda>x. [Seek 0 0, Run 0]) (x # pre)))
       (PutPartHash_loop cls n partSize (a - length (x # pre)) pos' s)"
    using PutPartHash_loop_retry [OF a(1) x, of n partSize pos "pre @ s"]
    by (simp add: played_played)
  then show ?case by blast
qed

lemma rewound_attempts:
  "rewound (concat (map (\<lambda>x. [Seek 0 0, Run 0]) pre) @ evs) = rewound evs"
  by (induction pre) simp_all

lemma seeks_append: "seeks (evs @ evs') = seeks evs + seeks evs'"
  by (induction evs rule: seeks.induct) simp_all

lemma seeks_attempts: "seeks (concat (map (\<lambda>x. [Seek 0 0, Run 0]) pre)) = length pre"
  by (induction pre) simp_all

lemma PutPartHash_loop_returns:
  "a \<le> length script \<Longrightarrow> PutPartHash_loop cls n partSize a pos script \<noteq> None"
proof (induction script arbitrary: a pos)
  case Nil
  then show ?case by (simp add: Next_def)
next
  case (Cons x script)
  show ?case
  proof (cases "a = 0")
    case True
    then show ?thesis by (simp add: Next_def)
  next
    case False
    then have a: "0 < a" "a - 1 \<le> length script" using Cons.prems by simp_all
    have IH: "\<And>pos. PutPartHash_loop cls n partSize (a - 1) pos script \<noteq> None"
      using Cons.IH [OF a(2)] .
    show ?thesis
      using a(1) IH [of "io_Seek pos 0 0 + run_reads x"]
      by (auto simp: Next_pos played_def split: option.splits sum.splits)
  qed
qed

lemma PutPartHash_loop_history:
  "PutPartHash_loop cls n partSize a pos script = Some (r, evs, rest) \<Longrightarrow>
   rewound evs \<and> seeks evs + length rest = length script \<and>
   (case r of
      Returned (part, None) \<Rightarrow> ETag part \<noteq> [] \<and> N part = n \<and> Size part = partSize
    | Returned (part, Some err) \<Rightarrow> part = empty_Part
    | Unreachable \<Rightarrow> a = 0)"
proof (induction script arbitrary: a pos r evs rest)
  case Nil
  then show ?case by (auto simp: Next_def split: if_splits)
next
  case (Cons x script)
  show ?case
  proof (cases "0 < a \<and> seek_err x = None \<and> prepare_err x = None \<and>
      shouldRetry cls (query_err (run_result x)) \<and> HasNext (snd (Next a))")
    case True
    with Cons.prems obtain evs' where
      rec: "PutPartHash_loop cls n partSize (a - 1) (io_Seek pos 0 0 + run_reads x) script =
        Some (r, evs', rest)"
      and evs: "evs = [Seek 0 0, Run (io_Seek pos 0 0)] @ evs'"
      by (auto simp: Next_pos played_def split: option.splits)
    have "a - 1 \<noteq> 0" using True by (auto simp: Next_def HasNext_def)
    then show ?thesis
      using Cons.IH [OF rec] evs
      by (auto simp: io_Seek_start split: outcome.splits option.splits prod.splits)
  next
    case False
    with Cons.prems show ?thesis
      by (auto simp: Next_def io_Seek_start empty_Part_def
          split: if_splits option.splits sum.splits)
  qed
qed

lemma ETag_key: "CanonicalMIMEHeaderKey ''ETag'' = ''Etag''"
  by code_simp

text \<open>
  Claim C4. An attempt of \<open>PutPartHash\<close> whose seek, prepare and run succeed and whose
  response has an empty \<open>ETag\<close> ends the call with the error "part upload succeeded with
  no ETag" and the empty part, whichever attempt it is: the rest of the script is not
  touched, so no further attempt is made. And a call that returns no error returns a part
  whose tag is not empty.
\<close>

theorem PutPartHash_empty_ETag_is_error:
  assumes "list_all (retried cls) pre" and "length pre < attempts"
    and "seek_err a = None" and "prepare_err a = None"
    and "run_result a = Inr hdr" and "Header_Get hdr ''ETag'' = []"
  shows "(\<exists>evs. PutPartHash attempts cls n partSize pos (pre @ a # rest) =
            Some (Returned (empty_Part, Some no_ETag), evs, rest)) \<and>
         (\<forall>script part evs rest'.
            PutPartHash attempts cls n partSize pos script = Some (Returned (part, None), evs, rest')
            \<longrightarrow> ETag part \<noteq> [])"
proof
  obtain pos' where "PutPartHash_loop cls n partSize attempts pos (pre @ a # rest) =
     played (concat (map (\<lambda>x. [Seek 0 0, Run 0]) pre))
       (PutPartHash_loop cls n partSize (attempts - length pre) pos' (a # rest))"
    using PutPartHash_loop_retries [OF assms(1,2)] by blast
  moreover have "PutPartHash_loop cls n partSize (attempts - length pre) pos' (a # rest) =
      Some (Returned (empty_Part, Some no_ETag), [Seek 0 0, Run 0], rest)"
    by (rule PutPartHash_loop_no_ETag [OF _ assms(3-6)]) (use assms(2) in simp)
  ultimately show "\<exists>evs. PutPartHash attempts cls n partSize pos (pre @ a # rest) =
            Some (Returned (empty_Part, Some no_ETag), evs, rest)"
    by (simp add: PutPartHash_def Start_def played_Some)
  show "\<forall>script part evs rest'.
            PutPartHash attempts cls n partSize pos script = Some (Returned (part, None), evs, rest')
            \<longrightarrow> ETag part \<noteq> []"
    using PutPartHash_loop_history [of cls n partSize "Start attempts" pos]
    by (fastforce simp: PutPartHash_def)
qed

text \<open>A retried failure, then a response without the header; a third reply is left over.\<close>

theorem PutPartHash_empty_ETag_is_error_witness:
  "list_all (retried (\<lambda>e. True))
     [\<lparr>seek_err = None, prepare_err = None, run_reads = 3,
       run_result = Inl (ServiceError ''InternalError'' [])\<rparr>] \<and>
   length [\<lparr>seek_err = None, prepare_err = None, run_reads = 3,
            run_result = Inl (ServiceError ''InternalError'' [])\<rparr>] < Suc (Suc (Suc 0)) \<and>
   Header_Get [(''Content-Length'', [''0''])] ''ETag'' = [] \<and>
   (\<exists>evs. PutPartHash (Suc (Suc (Suc 0))) (\<lambda>e. True) 1 8 0
      ([\<lparr>seek_err = None, prepare_err = None, run_reads = 3,
         run_result = Inl (ServiceError ''InternalError'' [])\<rparr>] @
       \<lparr>seek_err = None, prepare_err = None, run_reads = 8,
        run_result = Inr [(''Content-Length'', [''0''])]\<rparr> #
       [\<lparr>seek_err = None, prepare_err = None, run_reads = 8,
         run_result = Inr [(''Etag'', [''abc''])]\<rparr>]) =
      Some (Returned (empty_Part, Some no_ETag), evs,
            [\<lparr>seek_err = None, prepare_err = None, run_reads = 8,
              run_result = Inr [(''Etag'', [''abc''])]\<rparr>]))"
proof -
  let ?x = "\<lparr>seek_err = None, prepare_err = None, run_reads = 3,
       run_result = Inl (ServiceError ''InternalError'' [])\<rparr>"
  let ?a = "\<lparr>seek_err = None, prepare_err = None, run_reads = 8,
        run_result = Inr [(''Content-Length'', [''0''])]\<rparr>"
  have 1: "list_all (retried (\<lambda>e. True)) [?x]" by (simp add: retried_def)
  have 2: "length [?x] < Suc (Suc (Suc 0))" by simp
  have 3: "seek_err ?a = None" by simp
  have 4: "prepare_err ?a = None" by simp
  have 5: "run_result ?a = Inr [(''Content-Length'', [''0''])]" by simp
  have 6: "Header_Get [(''Content-Length'', [''0''])] ''ETag'' = []"
    by (simp add: Header_Get_def ETag_key)
  from 1 2 6 PutPartHash_empty_ETag_is_error [OF 1 2 3 4 5 6, THEN conjunct1]
  show ?thesis by (intro conjI)
qed

text \<open>
  Claim C8. Every attempt of \<open>PutPartHash\<close> starts with a seek to offset 0 from the start, and
  every run reads the payload from offset 0: the history of the payload source is a
  sequence of seek and run, with one seek for each attempt made. When a seek fails, on
  whichever attempt, the call returns that error and the empty part at once, with no run
  after the seek and no further attempt.
\<close>

theorem PutPartHash_rewinds_before_every_attempt:
  assumes "list_all (retried cls) pre" and "length pre < attempts"
    and "seek_err a = Some err" and "attempts \<le> length script"
  shows "(\<exists>evs. PutPartHash attempts cls n partSize pos (pre @ a # rest) =
            Some (Returned (empty_Part, Some err), evs @ [Seek 0 0], rest) \<and>
            rewound evs \<and> seeks evs = length pre) \<and>
         (\<exists>r evs rest'.
            PutPartHash attempts cls n partSize pos script = Some (r, evs, rest') \<and>
            rewound evs \<and> seeks evs + length rest' = length script)"
proof
  let ?evs = "concat (map (\<lambda>x. [Seek 0 0, Run 0]) pre)"
  obtain pos' where "PutPartHash_loop cls n partSize attempts pos (pre @ a # rest) =
     played ?evs (PutPartHash_loop cls n partSize (attempts - length pre) pos' (a # rest))"
    using PutPartHash_loop_retries [OF assms(1,2)] by blast
  moreover have "PutPartHash_loop cls n partSize (attempts - length pre) pos' (a # rest) =
      Some (Returned (empty_Part, Some err), [Seek 0 0], rest)"
    by (rule PutPartHash_loop_seek_fails [OF _ assms(3)]) (use assms(2) in simp)
  ultimately have "PutPartHash attempts cls n partSize pos (pre @ a # rest) =
            Some (Returned (empty_Part, Some err), ?evs @ [Seek 0 0], rest)"
    by (simp add: PutPartHash_def Start_def played_Some)
  moreover have "rewound ?evs" using rewound_attempts [of pre "[]"] by simp
  ultimately show "\<exists>evs. PutPartHash attempts cls n partSize pos (pre @ a # rest) =
            Some (Returned (empty_Part, Some err), evs @ [Seek 0 0], rest) \<and>
            rewound evs \<and> seeks evs = length pre"
    using seeks_attempts by blast
  obtain r evs rest' where
    res: "PutPartHash_loop cls n partSize (Start attempts) pos script = Some (r, evs, rest')"
    using PutPartHash_loop_returns [of "Start attempts" script cls n partSize pos] assms(4)
    by (auto simp: Start_def)
  then show "\<exists>r evs rest'.
            PutPartHash attempts cls n partSize pos script = Some (r, evs, rest') \<and>
            rewound evs \<and> seeks evs + length rest' = length script"
    using PutPartHash_loop_history [OF res] by (auto simp: PutPartHash_def)
qed

text \<open>
  A source that stands at offset 5: a retried failure and then a failed seek; and a
  retried failure and then a success, with the runs at offset 0.
\<close>

theorem PutPartHash_rewinds_before_every_attempt_witness:
  "list_all (retried (\<lambda>e. True))
     [\<lparr>seek_err = None, prepare_err = None, run_reads = 3,
       run_result = Inl (ServiceError ''InternalError'' [])\<rparr>] \<and>
   length [\<lparr>seek_err = None, prepare_err = None, run_reads = 3,
            run_result = Inl (ServiceError ''InternalError'' [])\<rparr>] < Suc (Suc (Suc 0)) \<and>
   (\<exists>evs. PutPartHash (Suc (Suc (Suc 0))) (\<lambda>e. True) 1 8 5
      ([\<lparr>seek_err = None, prepare_err = None, run_reads = 3,
         run_result = Inl (ServiceError ''InternalError'' [])\<rparr>] @
       \<lparr>seek_err = Some (OtherError ''seek''), prepare_err = None, run_reads = 0,
        run_result = Inr []\<rparr> #
       [\<lparr>seek_err = None, prepare_err = None, run_reads = 8,
         run_result = Inr [(''Etag'', [''abc''])]\<rparr>]) =
      Some (Returned (empty_Part, Some (OtherError ''seek'')), evs @ [Seek 0 0],
            [\<lparr>seek_err = None, prepare_err = None, run_reads = 8,
              run_result = Inr [(''Etag'', [''abc''])]\<rparr>]) \<and>
      rewound evs \<and> seeks evs = Suc 0) \<and>
   PutPartHash (Suc (Suc (Suc 0))) (\<lambda>e. True) 1 8 5
      [\<lparr>seek_err = None, prepare_err = None, run_reads = 3,
        run_result = Inl (ServiceError ''InternalError'' [])\<rparr>,
       \<lparr>seek_err = None, prepare_err = None, run_reads = 8,
        run_result = Inr [(''Etag'', [''abc''])]\<rparr>,
       \<lparr>seek_err = None, prepare_err = None, run_reads = 8,
        run_result = Inr [(''Etag'', [''abc''])]\<rparr>] =
     Some (Returned (\<lparr>N = 1, ETag = ''abc'', Size = 8\<rparr>, None),
           [Seek 0 0, Run 0, Seek 0 0, Run 0],
           [\<lparr>seek_err = None, prepare_err = None, run_reads = 8,
             run_result = Inr [(''Etag'', [''abc''])]\<rparr>])"
proof -
  let ?x = "\<lparr>seek_err = None, prepare_err = None, run_reads = 3,
       run_result = Inl (ServiceError ''InternalError'' [])\<rparr>"
  let ?a = "\<lparr>seek_err = Some (OtherError ''seek''), prepare_err = None, run_reads = 0,
        run_result = Inr []\<rparr>"
  let ?ok = "\<lparr>seek_err = None, prepare_err = None, run_reads = 8,
        run_result = Inr [(''Etag'', [''abc''])]\<rparr>"
  have 1: "list_all (retried (\<lambda>e. True)) [?x]" by (simp add: retried_def)
  have 2: "length [?x] < Suc (Suc (Suc 0))" by simp
  have 3: "seek_err ?a = Some (OtherError ''seek'')" by simp
  have 4: "Suc (Suc (Suc 0)) \<le> length [?x, ?ok, ?ok]" by simp
  have 5: "PutPartHash (Suc (Suc (Suc 0))) (\<lambda>e. True) 1 8 5 [?x, ?ok, ?ok] =
     Some (Returned (\<lparr>N = 1, ETag = ''abc'', Size = 8\<rparr>, None),
           [Seek 0 0, Run 0, Seek 0 0, Run 0], [?ok])"
    by (simp add: PutPartHash_def Start_def Next_def HasNext_def query_err_def played_def
        io_Seek_def Header_Get_def ETag_key)
  have "\<exists>evs. PutPartHash (Suc (Suc (Suc 0))) (\<lambda>e. True) 1 8 5 ([?x] @ ?a # [?ok]) =
      Some (Returned (empty_Part, Some (OtherError ''seek'')), evs @ [Seek 0 0], [?ok]) \<and>
      rewound evs \<and> seeks evs = Suc 0"
    using PutPartHash_rewinds_before_every_attempt [where n = 1 and partSize = 8 and pos = 5
        and rest = "[?ok]", OF 1 2 3 4, THEN conjunct1]
    by simp
  with 1 2 5 show ?thesis by (intro conjI)
qed

section \<open>Finding or starting an upload\<close>

lemma ListMulti_loop_error_empty:
  "ListMulti_loop attempts cls b a params multis prefixes script =
     Some (Returned (ms, ps, Some err), reqs, rest) \<Longrightarrow> ms = [] \<and> ps = []"
proof (induction script arbitrary: a params multis prefixes reqs)
  case Nil
  then show ?case by (simp add: ListMulti_loop.simps split: if_splits)
next
  case (Cons r script)
  from Cons.prems show ?case
    by (auto simp: ListMulti_loop.simps sent_def dest: Cons.IH
        split: if_splits sum.splits option.splits)
qed

text \<open>
  Claim C5. When the listing made by \<open>Bucket.Multi\<close> returns an error: if the error has the
  code \<open>NoSuchUpload\<close>, it is not returned, no upload is found, and the result is that of
  \<open>InitMulti\<close>; if it has not, the error is returned and nothing is initiated.
\<close>

theorem Multi_NoSuchUpload_initiates:
  assumes "ListMulti attempts cls listMultiMax b key [] lscript =
             Some (Returned (multis, prefixes, Some err), reqs, lrest)"
  shows "(hasCode err ''NoSuchUpload'' \<longrightarrow>
            Bucket_Multi attempts cls listMultiMax b key lscript iscript =
              (case InitMulti attempts cls b key iscript of
                 None \<Rightarrow> None
               | Some (res, irest) \<Rightarrow> Some (Returned res, lrest, irest))) \<and>
         (\<not> hasCode err ''NoSuchUpload'' \<longrightarrow>
            Bucket_Multi attempts cls listMultiMax b key lscript iscript =
              Some (Returned (None, Some err), lrest, iscript))"
proof -
  have "multis = []"
    using assms ListMulti_loop_error_empty unfolding ListMulti_def by blast
  then show ?thesis
    using assms by (simp add: Bucket_Multi_def)
qed

text \<open>
  The listing of the test suite, with no retries: \<open>NoSuchUpload\<close> leads to a new upload,
  another code is returned.
\<close>

theorem Multi_NoSuchUpload_initiates_witness:
  "ListMulti (Suc 0) (\<lambda>e. False) 1000 ''sample'' ''multi'' []
     [Inl (ServiceError ''NoSuchUpload'' [])] =
     Some (Returned ([], [], Some (ServiceError ''NoSuchUpload'' [])),
           [[(''uploads'', []), (''max-uploads'', [strconv_FormatInt 1000]),
             (''prefix'', [''multi'']), (''delimiter'', [[]])]], []) \<and>
   hasCode (ServiceError ''NoSuchUpload'' []) ''NoSuchUpload'' \<and>
   Bucket_Multi (Suc 0) (\<lambda>e. False) 1000 ''sample'' ''multi''
     [Inl (ServiceError ''NoSuchUpload'' [])] [Inr ''JNbR''] =
     Some (Returned (Some \<lparr>Bucket = ''sample'', Key = ''multi'', UploadId = ''JNbR'',
                           Initiated = None\<rparr>, None), [], []) \<and>
   ListMulti (Suc 0) (\<lambda>e. False) 1000 ''sample'' ''multi'' []
     [Inl (ServiceError ''AccessDenied'' [])] =
     Some (Returned ([], [], Some (ServiceError ''AccessDenied'' [])),
           [[(''uploads'', []), (''max-uploads'', [strconv_FormatInt 1000]),
             (''prefix'', [''multi'']), (''delimiter'', [[]])]], []) \<and>
   \<not> hasCode (ServiceError ''AccessDenied'' []) ''NoSuchUpload'' \<and>
   Bucket_Multi (Suc 0) (\<lambda>e. False) 1000 ''sample'' ''multi''
     [Inl (ServiceError ''AccessDenied'' [])] [Inr ''JNbR''] =
     Some (Returned (None, Some (ServiceError ''AccessDenied'' [])), [], [Inr ''JNbR''])"
proof -
  have l1: "ListMulti (Suc 0) (\<lambda>e. False) 1000 ''sample'' ''multi'' []
     [Inl (ServiceError ''NoSuchUpload'' [])] =
     Some (Returned ([], [], Some (ServiceError ''NoSuchUpload'' [])),
           [[(''uploads'', []), (''max-uploads'', [strconv_FormatInt 1000]),
             (''prefix'', [''multi'']), (''delimiter'', [[]])]], [])"
    by (simp add: ListMulti_def ListMulti_loop.simps Start_def Next_def HasNext_def
        query_err_def)
  have l2: "ListMulti (Suc 0) (\<lambda>e. False) 1000 ''sample'' ''multi'' []
     [Inl (ServiceError ''AccessDenied'' [])] =
     Some (Returned ([], [], Some (ServiceError ''AccessDenied'' [])),
           [[(''uploads'', []), (''max-uploads'', [strconv_FormatInt 1000]),
             (''prefix'', [''multi'']), (''delimiter'', [[]])]], [])"
    by (simp add: ListMulti_def ListMulti_loop.simps Start_def Next_def HasNext_def
        query_err_def)
  have h1: "hasCode (ServiceError ''NoSuchUpload'' []) ''NoSuchUpload''" by simp
  have h2: "\<not> hasCode (ServiceError ''AccessDenied'' []) ''NoSuchUpload''" by simp
  have i: "InitMulti (Suc 0) (\<lambda>e. False) ''sample'' ''multi'' [Inr ''JNbR''] =
      Some ((Some \<lparr>Bucket = ''sample'', Key = ''multi'', UploadId = ''JNbR'',
                   Initiated = None\<rparr>, None), [])"
    by (simp add: InitMulti_def Start_def Next_def query_err_def)
  have b1: "Bucket_Multi (Suc 0) (\<lambda>e. False) 1000 ''sample'' ''multi''
     [Inl (ServiceError ''NoSuchUpload'' [])] [Inr ''JNbR''] =
     Some (Returned (Some \<lparr>Bucket = ''sample'', Key = ''multi'', UploadId = ''JNbR'',
                           Initiated = None\<rparr>, None), [], [])"
    using Multi_NoSuchUpload_initiates [OF l1, of "[Inr ''JNbR'']"] h1 by (simp add: i)
  have b2: "Bucket_Multi (Suc 0) (\<lambda>e. False) 1000 ''sample'' ''multi''
     [Inl (ServiceError ''AccessDenied'' [])] [Inr ''JNbR''] =
     Some (Returned (None, Some (ServiceError ''AccessDenied'' [])), [], [Inr ''JNbR''])"
    using Multi_NoSuchUpload_initiates [OF l2, of "[Inr ''JNbR'']"] h2 by simp
  from l1 h1 b1 l2 h2 b2 show ?thesis by (intro conjI)
qed

section \<open>The canonical headers and the signed headers\<close>

lemma toLower_byte_idem: "toLower_byte (toLower_byte c) = toLower_byte c"
  by (auto simp: toLower_byte_def less_eq_char_def)

lemma toLower_byte_ascii:
  "of_char c < (128::nat) \<Longrightarrow> of_char (toLower_byte c) < (128::nat)"
  by (auto simp: toLower_byte_def less_eq_char_def)

lemma strings_ToLower_example_library:
  "strings_ToLower example_library (strings_ToLower example_library s) =
     strings_ToLower example_library s"
  by (simp add: strings_ToLower_def example_library_def list_all_iff toLower_byte_idem
      toLower_byte_ascii)

lemma update_fresh: "k \<notin> fst ` set al \<Longrightarrow> AList.update k v al = al @ [(k, v)]"
  by (induction al) auto

lemma fold_update_keys:
  "fst ` set (fold (\<lambda>(k, v) acc. AList.update (f k) (g k v) acc) h acc0) =
     fst ` set acc0 \<union> f ` fst ` set h"
proof (induction h arbitrary: acc0)
  case Nil
  show ?case by simp
next
  case (Cons kv h)
  obtain k v where kv: "kv = (k, v)" by (cases kv)
  show ?case by (simp add: kv Cons.IH dom_update)
qed

lemma fold_update_fresh:
  "distinct (map (\<lambda>(k, v). f k) h) \<Longrightarrow> f ` fst ` set h \<inter> fst ` set acc0 = {} \<Longrightarrow>
   fold (\<lambda>(k, v) acc. AList.update (f k) (g k v) acc) h acc0 =
     acc0 @ map (\<lambda>(k, v). (f k, g k v)) h"
proof (induction h arbitrary: acc0)
  case Nil
  show ?case by simp
next
  case (Cons kv h)
  obtain k v where kv: "kv = (k, v)" by (cases kv)
  from Cons.prems kv have fresh: "f k \<notin> fst ` set acc0" by auto
  from Cons.prems kv have d: "distinct (map (\<lambda>(k, v). f k) h)" by simp
  from Cons.prems kv have "f k \<notin> f ` fst ` set h" by (auto simp: image_iff)
  with Cons.prems kv have disj: "f ` fst ` set h \<inter> fst ` set (acc0 @ [(f k, g k v)]) = {}"
    by auto
  show ?case
    using Cons.IH [OF d disj] by (simp add: kv update_fresh [OF fresh])
qed

lemma canonicalHeaders_names:
  assumes idem: "\<And>s. strings_ToLower lib (strings_ToLower lib s) = strings_ToLower lib s"
  shows "set (map fst (canonicalHeaders_entries lib h)) = strings_ToLower lib ` fst ` set h"
proof -
  have "set (canonicalHeaders_keys lib h) = strings_ToLower lib ` fst ` set h"
    using fold_update_keys [of "strings_ToLower lib" "\<lambda>k v. v" h "[]"]
    by (simp add: canonicalHeaders_keys_def canonicalHeaders_lowerCase_def sort_Strings_def)
  then have "set (map fst (canonicalHeaders_entries lib h)) =
      strings_ToLower lib ` strings_ToLower lib ` fst ` set h"
    by (simp add: canonicalHeaders_entries_def comp_def image_image)
  then show ?thesis by (simp add: image_image idem)
qed

lemma signedHeaders_names: "set (signedHeaders_a lib h) = strings_ToLower lib ` fst ` set h"
  by (auto simp: signedHeaders_a_def sort_Strings_def image_iff split: prod.splits) force+

lemma canonicalHeaders_names_list:
  assumes idem: "\<And>s. strings_ToLower lib (strings_ToLower lib s) = strings_ToLower lib s"
    and "distinct (map (\<lambda>(k, v). strings_ToLower lib k) h)"
  shows "map fst (canonicalHeaders_entries lib h) = signedHeaders_a lib h"
proof -
  have lc: "canonicalHeaders_lowerCase lib h = map (\<lambda>(k, v). (strings_ToLower lib k, v)) h"
    using fold_update_fresh [of "strings_ToLower lib" h "[]" "\<lambda>k v. v"] assms(2)
    by (simp add: canonicalHeaders_lowerCase_def)
  have "map fst (map (\<lambda>(k, v). (strings_ToLower lib k, v)) h) =
      map (\<lambda>(k, v). strings_ToLower lib k) h"
    by (simp add: comp_def case_prod_unfold)
  then have keys: "canonicalHeaders_keys lib h = signedHeaders_a lib h"
    unfolding canonicalHeaders_keys_def signedHeaders_a_def lc by (simp only:)
  have "map (strings_ToLower lib) (signedHeaders_a lib h) = signedHeaders_a lib h"
    by (rule map_idI) (use signedHeaders_names [of lib h] in \<open>auto simp: idem\<close>)
  then show ?thesis
    by (simp add: canonicalHeaders_entries_def keys comp_def)
qed

text \<open>
  Claim C2. \<open>strings.ToLower\<close> leaves a string that it has produced as it is; this is what
  is assumed of the Unicode case mapping, which is a parameter. Then, for every header, the
  names in the signed-header list are the names of the lines of the canonical header
  block, as sets: the lower-case forms of the keys of the header. The list is joined with
  semicolons, the block is the lines (and an empty slot for every key whose lower-case
  form another key shares) joined with newlines. When no two keys share a lower-case form,
  the list and the names of the lines are the same sequence and the block has one line
  per key.
\<close>

theorem signedHeaders_match_canonicalHeaders:
  assumes idem: "\<And>s. strings_ToLower lib (strings_ToLower lib s) = strings_ToLower lib s"
  shows
  "set (signedHeaders_a lib h) = set (map fst (canonicalHeaders_entries lib h)) \<and>
   signedHeaders lib h = strings_Join (signedHeaders_a lib h) '';'' \<and>
   canonicalHeaders lib h =
     strings_Join
       (map (\<lambda>(name, values). name @ '':'' @ values) (canonicalHeaders_entries lib h) @
        replicate (length h - length (canonicalHeaders_entries lib h)) []) [CHR 0x0A] \<and>
   (distinct (map (\<lambda>(k, v). strings_ToLower lib k) h) \<longrightarrow>
      signedHeaders_a lib h = map fst (canonicalHeaders_entries lib h) \<and>
      length (canonicalHeaders_entries lib h) = length h)"
proof -
  have "length (canonicalHeaders_entries lib h) = length h"
    if "distinct (map (\<lambda>(k, v). strings_ToLower lib k) h)"
    using canonicalHeaders_names_list [OF idem that]
    by (metis length_map length_sort signedHeaders_a_def sort_Strings_def)
  then show ?thesis
    using canonicalHeaders_names [OF idem, of h] signedHeaders_names [of lib h]
      canonicalHeaders_names_list [OF idem, of h]
    by (simp add: signedHeaders_def canonicalHeaders_def canonicalHeaders_a_def)
qed

lemma headers_example:
  "signedHeaders_a example_library [(''X-Amz-Date'', [''d'']), (''Host'', ['' h ''])] = [''host'', ''x-amz-date'']"
  "canonicalHeaders_entries example_library [(''X-Amz-Date'', [''d'']), (''Host'', ['' h ''])] =
     [(''host'', ''h''), (''x-amz-date'', ''d'')]"
  "signedHeaders example_library [(''X-Amz-Date'', [''d'']), (''Host'', ['' h ''])] = ''host;x-amz-date''"
  "canonicalHeaders example_library [(''X-Amz-Date'', [''d'']), (''Host'', ['' h ''])] =
     ''host:h'' @ [CHR 0x0A] @ ''x-amz-date:d''"
  "distinct (map (\<lambda>(k, v). strings_ToLower example_library k) [(''X-Amz-Date'', [''d'']), (''Host'', ['' h ''])])"
  by code_simp+

text \<open>A header with a date and a host, lower-cased byte by byte.\<close>

theorem signedHeaders_match_canonicalHeaders_witness:
  "(\<forall>s. strings_ToLower example_library (strings_ToLower example_library s) =
        strings_ToLower example_library s) \<and>
   distinct (map (\<lambda>(k, v). strings_ToLower example_library k) [(''X-Amz-Date'', [''d'']), (''Host'', ['' h ''])]) \<and>
   signedHeaders_a example_library [(''X-Amz-Date'', [''d'']), (''Host'', ['' h ''])] =
     map fst (canonicalHeaders_entries example_library [(''X-Amz-Date'', [''d'']), (''Host'', ['' h ''])]) \<and>
   signedHeaders example_library [(''X-Amz-Date'', [''d'']), (''Host'', ['' h ''])] = ''host;x-amz-date'' \<and>
   canonicalHeaders example_library [(''X-Amz-Date'', [''d'']), (''Host'', ['' h ''])] =
     ''host:h'' @ [CHR 0x0A] @ ''x-amz-date:d''"
proof -
  note T = signedHeaders_match_canonicalHeaders
    [of example_library "[(''X-Amz-Date'', [''d'']), (''Host'', ['' h ''])]", OF strings_ToLower_example_library]
  have "signedHeaders_a example_library [(''X-Amz-Date'', [''d'']), (''Host'', ['' h ''])] =
     map fst (canonicalHeaders_entries example_library [(''X-Amz-Date'', [''d'']), (''Host'', ['' h ''])])"
    using T headers_example(5) by blast
  with strings_ToLower_example_library headers_example(5,3,4) show ?thesis by (intro conjI allI)
qed

section \<open>The canonical query string\<close>

lemma strings_Replace_byte:
  "strings_Replace s [c] new = concat (map (\<lambda>x. if x = c then new else [x]) s)"
proof -
  have "strings_Replace_from s [c] new = concat (map (\<lambda>x. if x = c then new else [x]) s)"
    by (induction s) simp_all
  then show ?thesis by (simp add: strings_Replace_def)
qed

lemma shouldEscape_special:
  "shouldEscape (CHR ''+'')" "shouldEscape (CHR ''%'')" "shouldEscape (CHR '' '')"
  "shouldEscape (CHR ''&'')"
  by code_simp+

lemma percent_encode_space: "percent_encode '' '' = ''%20''"
  by code_simp

lemma digit_char_mem: "digit_char d \<in> set ''0123456789ABCDEF''"
  unfolding digit_char_def by (rule nth_mem) simp

lemma digit_char_not_plus: "digit_char d \<noteq> CHR ''+''"
  using digit_char_mem [of d] by auto

lemma digit_char_inj: "a < 16 \<Longrightarrow> b < 16 \<Longrightarrow> digit_char a = digit_char b \<Longrightarrow> a = b"
proof -
  assume a: "a < 16" and b: "b < 16" and eq: "digit_char a = digit_char b"
  have d: "distinct ''0123456789ABCDEF''" by simp
  have "''0123456789ABCDEF'' ! a = ''0123456789ABCDEF'' ! b"
    using eq a b by (simp add: digit_char_def)
  then show "a = b"
    using nth_eq_iff_index_eq [OF d, of a b] a b by simp
qed


lemma escape_byte_cases:
  "(c = CHR '' '' \<and> escape_byte c = ''+'') \<or>
   (c \<noteq> CHR '' '' \<and> shouldEscape c \<and>
    escape_byte c = [CHR ''%'', digit_char (of_char c div 16), digit_char (of_char c mod 16)]) \<or>
   (c \<noteq> CHR ''+'' \<and> c \<noteq> CHR ''%'' \<and> \<not> shouldEscape c \<and> escape_byte c = [c])"
  using shouldEscape_special by (auto simp: escape_byte_def)

lemma hex_digits_inj:
  assumes "digit_char (of_char c div 16) = digit_char (of_char d div 16)"
    and "digit_char (of_char c mod 16) = digit_char (of_char d mod 16)"
  shows "c = d"
proof -
  have c: "(of_char c :: nat) < 256" and d: "(of_char d :: nat) < 256"
    by (rule nat_of_char_less_256)+
  have "(of_char c :: nat) div 16 < 16" "(of_char d :: nat) div 16 < 16"
    using c d by arith+
  then have "(of_char c :: nat) div 16 = of_char d div 16"
    using assms(1) by (intro digit_char_inj)
  moreover have "(of_char c :: nat) mod 16 = of_char d mod 16"
    using assms(2) by (intro digit_char_inj) simp_all
  ultimately have "(of_char c :: nat) = of_char d"
    by (metis div_mult_mod_eq)
  then show ?thesis by (rule of_char_eqI)
qed

lemma escape_byte_prefix_free:
  assumes eq: "escape_byte c @ xs = escape_byte d @ ys"
  shows "c = d \<and> xs = ys"
proof -
  let ?hex = "\<lambda>c. [CHR ''%'', digit_char (of_char c div 16), digit_char (of_char c mod 16)]"
  consider (space) "c = CHR '' ''" "escape_byte c = ''+''"
    | (hex) "shouldEscape c" "escape_byte c = ?hex c"
    | (plain) "c \<noteq> CHR ''+''" "c \<noteq> CHR ''%''" "escape_byte c = [c]"
    using escape_byte_cases [of c] by blast
  then show ?thesis
  proof cases
    case space
    consider (space') "d = CHR '' ''" "escape_byte d = ''+''"
      | (hex') "shouldEscape d" "escape_byte d = ?hex d"
      | (plain') "d \<noteq> CHR ''+''" "d \<noteq> CHR ''%''" "escape_byte d = [d]"
      using escape_byte_cases [of d] by blast
    then show ?thesis
    proof cases
      case space'
      with space eq show ?thesis by simp
    next
      case hex'
      with space eq show ?thesis by simp
    next
      case plain'
      with space eq show ?thesis by simp
    qed
  next
    case hex
    consider (space') "d = CHR '' ''" "escape_byte d = ''+''"
      | (hex') "shouldEscape d" "escape_byte d = ?hex d"
      | (plain') "d \<noteq> CHR ''+''" "d \<noteq> CHR ''%''" "escape_byte d = [d]"
      using escape_byte_cases [of d] by blast
    then show ?thesis
    proof cases
      case space'
      with hex eq show ?thesis by simp
    next
      case hex'
      with hex eq have "digit_char (of_char c div 16) = digit_char (of_char d div 16)"
        and "digit_char (of_char c mod 16) = digit_char (of_char d mod 16)" and "xs = ys"
        by simp_all
      then show ?thesis using hex_digits_inj by blast
    next
      case plain'
      with hex eq show ?thesis by simp
    qed
  next
    case plain
    consider (space') "d = CHR '' ''" "escape_byte d = ''+''"
      | (hex') "shouldEscape d" "escape_byte d = ?hex d"
      | (plain') "d \<noteq> CHR ''+''" "d \<noteq> CHR ''%''" "escape_byte d = [d]"
      using escape_byte_cases [of d] by blast
    then show ?thesis
    proof cases
      case space'
      with plain eq show ?thesis by simp
    next
      case hex'
      with plain eq show ?thesis by simp
    next
      case plain'
      with plain eq show ?thesis by simp
    qed
  qed
qed

lemma escape_byte_not_Nil: "escape_byte c \<noteq> []"
  using escape_byte_cases [of c] by auto

lemma url_QueryEscape_inj: "url_QueryEscape s = url_QueryEscape t \<Longrightarrow> s = t"
proof (induction s arbitrary: t)
  case Nil
  then show ?case
    by (cases t) (simp_all add: url_QueryEscape_def escape_byte_not_Nil)
next
  case (Cons c s)
  then show ?case
  proof (cases t)
    case Nil
    with Cons.prems show ?thesis by (simp add: url_QueryEscape_def escape_byte_not_Nil)
  next
    case (Cons d t')
    with Cons.prems have "escape_byte c @ url_QueryEscape s = escape_byte d @ url_QueryEscape t'"
      by (simp add: url_QueryEscape_def)
    then have "c = d \<and> url_QueryEscape s = url_QueryEscape t'"
      by (rule escape_byte_prefix_free)
    then show ?thesis using Cons.IH Cons by simp
  qed
qed

lemma replace_plus_escape_byte:
  "concat (map (\<lambda>x. if x = CHR ''+'' then ''%20'' else [x]) (escape_byte c)) =
     percent_encode_byte c"
proof -
  have sp: "percent_encode_byte (CHR '' '') = ''%20''"
    using percent_encode_space by (simp add: percent_encode_def)
  show ?thesis
    using escape_byte_cases [of c] sp digit_char_not_plus
    by (elim disjE conjE) (simp_all add: percent_encode_byte_def)
qed

lemma replace_plus_QueryEscape:
  "strings_Replace (url_QueryEscape s) ''+'' ''%20'' = percent_encode s"
  by (induction s)
     (simp_all add: strings_Replace_byte url_QueryEscape_def percent_encode_def
        replace_plus_escape_byte)

lemma replace_plus_append:
  "strings_Replace (a @ b) ''+'' ''%20'' =
     strings_Replace a ''+'' ''%20'' @ strings_Replace b ''+'' ''%20''"
  by (simp add: strings_Replace_byte)

lemma replace_plus_Join:
  "strings_Replace (strings_Join xs ''&'') ''+'' ''%20'' =
     strings_Join (map (\<lambda>x. strings_Replace x ''+'' ''%20'') xs) ''&''"
proof (induction xs "''&''" rule: strings_Join.induct)
  case 1
  show ?case by (simp add: strings_Replace_byte)
next
  case (2 x)
  show ?case by simp
next
  case (3 x y ys)
  have amp: "strings_Replace ''&'' ''+'' ''%20'' = ''&''" by (simp add: strings_Replace_byte)
  show ?case using 3 by (simp add: strings_Replace_byte)
qed

lemma replace_plus_no_plus: "CHR ''+'' \<notin> set (strings_Replace s ''+'' ''%20'')"
  by (auto simp: strings_Replace_byte split: if_splits)

lemma replace_plus_pairs:
  "strings_Replace (canonicalQueryString_pairs k vs) ''+'' ''%20'' =
     strings_Join (map (\<lambda>v. percent_encode k @ ''='' @ percent_encode v) vs) ''&''"
proof -
  have eq: "\<And>s. strings_Replace (CHR ''='' # s) ''+'' ''%20'' =
      CHR ''='' # strings_Replace s ''+'' ''%20''"
    by (simp add: strings_Replace_byte)
  show ?thesis
    by (simp add: canonicalQueryString_pairs_def replace_plus_Join comp_def
        replace_plus_append replace_plus_QueryEscape eq)
qed

lemma map_insort_key: "map f (insort_key f x xs) = insort (f x) (map f xs)"
  by (induction xs) simp_all

lemma map_sort_key: "map f (sort_key f xs) = sort (map f xs)"
  by (induction xs) (simp_all add: map_insort_key)

lemma insort_key_map:
  "insort_key k (g x) (map g ys) = map g (insort_key (\<lambda>a. k (g a)) x ys)"
  by (induction ys) simp_all

lemma sort_key_map: "sort_key k (map g xs) = map g (sort_key (\<lambda>a. k (g a)) xs)"
  by (induction xs) (simp_all add: insort_key_map)

lemma lookup_sorted_keys:
  assumes "distinct (map fst al)"
  shows "map (\<lambda>key. case map_of al key of None \<Rightarrow> [] | Some s \<Rightarrow> s) (sort (map fst al)) =
           map snd (sort_key fst al)"
proof -
  have "map (\<lambda>key. case map_of al key of None \<Rightarrow> [] | Some s \<Rightarrow> s) (map fst (sort_key fst al)) =
      map snd (sort_key fst al)"
    unfolding map_map
  proof (rule map_cong [OF refl])
    fix p assume "p \<in> set (sort_key fst al)"
    then have "p \<in> set al" by simp
    then have "map_of al (fst p) = Some (snd p)"
      using assms by (simp add: map_of_eq_Some_iff)
    then show "((\<lambda>key. case map_of al key of None \<Rightarrow> [] | Some s \<Rightarrow> s) \<circ> fst) p = snd p"
      by simp
  qed
  then show ?thesis by (simp add: map_sort_key)
qed

lemma canonicalQueryString_query_sorted:
  assumes "distinct (map fst q)"
  shows "canonicalQueryString_query q =
    map (\<lambda>(k, vs). canonicalQueryString_pairs k vs) (sort_key (\<lambda>(k, vs). url_QueryEscape k) q)"
proof -
  let ?F = "\<lambda>(k, vs). (url_QueryEscape k, canonicalQueryString_pairs k vs)"
  have inj: "inj_on url_QueryEscape (set (map fst q))"
    by (rule inj_onI) (rule url_QueryEscape_inj)
  have eq: "map (\<lambda>(k, vs). url_QueryEscape k) q = map url_QueryEscape (map fst q)"
    by (simp add: comp_def case_prod_unfold)
  have "distinct (map url_QueryEscape (map fst q))"
    using assms inj by (subst distinct_map) blast
  then have d: "distinct (map (\<lambda>(k, vs). url_QueryEscape k) q)"
    unfolding eq .
  have kv: "canonicalQueryString_keyValues q = map ?F q"
    using fold_update_fresh [of url_QueryEscape q "[]" canonicalQueryString_pairs] d
    by (simp add: canonicalQueryString_keyValues_def)
  have fst: "map fst (map ?F q) = map (\<lambda>(k, vs). url_QueryEscape k) q"
    by (simp add: comp_def case_prod_unfold)
  have keys: "canonicalQueryString_keys q = sort (map fst (map ?F q))"
    unfolding fst by (simp only: canonicalQueryString_keys_def sort_Strings_def)
  have d': "distinct (map fst (map ?F q))" using d unfolding fst .
  have "canonicalQueryString_query q = map snd (sort_key fst (map ?F q))"
    unfolding canonicalQueryString_query_def kv keys by (rule lookup_sorted_keys [OF d'])
  also have "\<dots> = map snd (map ?F (sort_key (\<lambda>a. fst (?F a)) q))"
    by (simp only: sort_key_map)
  also have "(\<lambda>a. fst (?F a)) = (\<lambda>(k, vs). url_QueryEscape k)"
    by (auto simp: fun_eq_iff)
  finally show ?thesis by (simp add: comp_def case_prod_unfold)
qed

text \<open>
  Claim C9. The canonical query string contains no \<open>+\<close> at all, whatever the query is, and
  the percent encoding of a space is \<open>%20\<close>. For a query mapping (a list of distinct names,
  each with its values, in the order in which the map is ranged over) the canonical query
  string is the \<open>name=value\<close> pairs, every name and every value percent encoded, so that each
  space of a name or of a value is \<open>%20\<close>, joined by \<open>&\<close> in the order of the names as
  \<open>url.QueryEscape\<close> writes them.
\<close>

theorem canonicalQueryString_space_is_percent20:
  "CHR ''+'' \<notin> set (canonicalQueryString q) \<and>
   percent_encode '' '' = ''%20'' \<and>
   (distinct (map fst q) \<longrightarrow>
      canonicalQueryString q =
        strings_Join
          (map (\<lambda>(k, vs).
                  strings_Join (map (\<lambda>v. percent_encode k @ ''='' @ percent_encode v) vs) ''&'')
             (sort_key (\<lambda>(k, vs). url_QueryEscape k) q))
          ''&'')"
proof -
  have "canonicalQueryString q =
        strings_Join
          (map (\<lambda>(k, vs).
                  strings_Join (map (\<lambda>v. percent_encode k @ ''='' @ percent_encode v) vs) ''&'')
             (sort_key (\<lambda>(k, vs). url_QueryEscape k) q))
          ''&''" if "distinct (map fst q)"
    by (simp add: canonicalQueryString_def canonicalQueryString_query_sorted [OF that]
        replace_plus_Join comp_def case_prod_unfold replace_plus_pairs)
  then show ?thesis
    using replace_plus_no_plus percent_encode_space by (simp add: canonicalQueryString_def)
qed

lemma canonicalQueryString_example:
  "canonicalQueryString [(''b c'', [''x y'']), (''a'', [''1 2'', ''3+4''])] =
     ''a=1%202&a=3%2B4&b%20c=x%20y''"
  "distinct (map fst [(''b c'', [''x y'']), (''a'', [''1 2'', ''3+4''])])"
  by code_simp+

text \<open>A query with spaces in a name and in two values, and a literal \<open>+\<close> in a value.\<close>

theorem canonicalQueryString_space_is_percent20_witness:
  "distinct (map fst [(''b c'', [''x y'']), (''a'', [''1 2'', ''3+4''])]) \<and>
   canonicalQueryString [(''b c'', [''x y'']), (''a'', [''1 2'', ''3+4''])] =
     ''a=1%202&a=3%2B4&b%20c=x%20y'' \<and>
   CHR ''+'' \<notin> set (canonicalQueryString [(''b c'', [''x y'']), (''a'', [''1 2'', ''3+4''])]) \<and>
   canonicalQueryString [(''b c'', [''x y'']), (''a'', [''1 2'', ''3+4''])] =
     strings_Join
       (map (\<lambda>(k, vs).
               strings_Join (map (\<lambda>v. percent_encode k @ ''='' @ percent_encode v) vs) ''&'')
          (sort_key (\<lambda>(k, vs). url_QueryEscape k)
             [(''b c'', [''x y'']), (''a'', [''1 2'', ''3+4''])]))
       ''&''"
proof -
  note T = canonicalQueryString_space_is_percent20
    [of "[(''b c'', [''x y'']), (''a'', [''1 2'', ''3+4''])]"]
  have plus: "CHR ''+'' \<notin> set (canonicalQueryString [(''b c'', [''x y'']), (''a'', [''1 2'', ''3+4''])])"
    using T by blast
  have form: "canonicalQueryString [(''b c'', [''x y'']), (''a'', [''1 2'', ''3+4''])] =
     strings_Join
       (map (\<lambda>(k, vs).
               strings_Join (map (\<lambda>v. percent_encode k @ ''='' @ percent_encode v) vs) ''&'')
          (sort_key (\<lambda>(k, vs). url_QueryEscape k)
             [(''b c'', [''x y'']), (''a'', [''1 2'', ''3+4''])]))
       ''&''"
    using T canonicalQueryString_example(2) by blast
  from canonicalQueryString_example(2,1) plus form show ?thesis by (intro conjI)
qed

text \<open>
  Claim C3. The values of one name are written in the order in which the query has them:
  the values \<open>2, 1\<close> of the name \<open>a\<close> give \<open>a=2&a=1\<close>, and the values \<open>1, 2\<close> give
  \<open>a=1&a=2\<close>, so the canonical query string is not the same for the two orders.
\<close>

theorem canonicalQueryString_keeps_value_order:
  "canonicalQueryString [(''a'', [''2'', ''1''])] = ''a=2&a=1'' \<and>
   canonicalQueryString [(''a'', [''1'', ''2''])] = ''a=1&a=2'' \<and>
   canonicalQueryString [(''a'', [''2'', ''1''])] \<noteq> canonicalQueryString [(''a'', [''1'', ''2''])]"
  by code_simp

section \<open>Signing a request\<close>

lemma canonical_keys:
  "CanonicalMIMEHeaderKey ''host'' = ''Host''"
  "CanonicalMIMEHeaderKey ''x-amz-date'' = ''X-Amz-Date''"
  "CanonicalMIMEHeaderKey ''x-amz-content-sha256'' = ''X-Amz-Content-Sha256''"
  "CanonicalMIMEHeaderKey ''Authorization'' = ''Authorization''"
  by code_simp+

lemma ToLower_Host: "strings_ToLower lib ''Host'' = ''host''"
  by code_simp

lemma Header_Set_same: "map_of (Header_Set h key v) (CanonicalMIMEHeaderKey key) = Some [v]"
  by (simp add: Header_Set_def update_conv')

lemma Header_Set_other:
  "CanonicalMIMEHeaderKey key \<noteq> k \<Longrightarrow> map_of (Header_Set h key v) k = map_of h k"
  by (simp add: Header_Set_def update_conv')

lemma Header_Del_other:
  "CanonicalMIMEHeaderKey key \<noteq> k \<Longrightarrow> map_of (Header_Del h key) k = map_of h k"
  by (simp add: Header_Del_def delete_conv')

lemma requestTime_keeps:
  assumes "requestTime lib req = (t, req')"
  shows "map_of (Header req') ''Host'' = map_of (Header req) ''Host''"
    and "Host req' = Host req" and "Form req' = Form req"
  using assms
  by (auto simp: requestTime_def canonical_keys Header_Set_other split: option.splits)

lemma signedHeaders_a_Host:
  assumes "map_of h ''Host'' = Some v"
  shows "''host'' \<in> set (signedHeaders_a lib h)"
proof -
  from assms have "(''Host'', v) \<in> set h" by (rule map_of_SomeD)
  then have "(\<lambda>(k, v). strings_ToLower lib k) (''Host'', v) \<in> (\<lambda>(k, v). strings_ToLower lib k) ` set h"
    by (rule imageI)
  then show ?thesis
    by (simp add: signedHeaders_a_def sort_Strings_def ToLower_Host)
qed

lemma canonicalHeaders_header_keys: "map fst (canonicalHeaders_header lib h) = map fst h"
  by (induction h) auto

lemma signedHeaders_a_keys: "signedHeaders_a lib h = sort (map (strings_ToLower lib) (map fst h))"
  by (simp add: signedHeaders_a_def sort_Strings_def comp_def case_prod_unfold)

lemma signedHeaders_canonicalHeaders_header:
  "signedHeaders lib (canonicalHeaders_header lib h) = signedHeaders lib h"
  by (simp add: signedHeaders_def signedHeaders_a_keys canonicalHeaders_header_keys)

lemma Sign_prepare_presigning:
  assumes "Sign_prepare lib s req payloadHash = (t, req', ph)"
  shows "presigning req' = presigning req"
  using assms
  by (auto simp: Sign_prepare_def Let_def presigning_def update_conv'
      dest!: requestTime_keeps(3) split: prod.splits if_splits)

lemma Sign_prepare_Host:
  assumes "Sign_prepare lib s req payloadHash = (t, req', ph)"
  shows "map_of (Header req') ''Host'' = Some [Host req]" and "Host req' = Host req"
proof -
  let ?r = "req\<lparr>Header := Header_Set (Header req) ''host'' (Host req)\<rparr>"
  obtain t1 r1 where rt: "requestTime lib ?r = (t1, r1)" by (cases "requestTime lib ?r")
  have "map_of (Header ?r) ''Host'' = Some [Host req]"
    using Header_Set_same [of "Header req" "''host''" "Host req"] by (simp add: canonical_keys)
  with requestTime_keeps [OF rt] have r1: "map_of (Header r1) ''Host'' = Some [Host req]"
    and h1: "Host r1 = Host req" by simp_all
  from assms rt r1 show "map_of (Header req') ''Host'' = Some [Host req]"
    by (auto simp: Sign_prepare_def Let_def canonical_keys Header_Set_other Header_Del_other
        split: if_splits)
  from assms rt h1 show "Host req' = Host req"
    by (auto simp: Sign_prepare_def Let_def split: if_splits)
qed

lemma Sign_prepare_SignedHeaders:
  assumes "Sign_prepare lib s req payloadHash = (t, req', ph)" and "presigning req"
  shows "map_of (Form req') ''X-Amz-SignedHeaders'' = Some [signedHeaders lib (Header req')]"
    and "ph = ''UNSIGNED-PAYLOAD''"
proof -
  let ?r = "req\<lparr>Header := Header_Set (Header req) ''host'' (Host req)\<rparr>"
  obtain t1 r1 where rt: "requestTime lib ?r = (t1, r1)" by (cases "requestTime lib ?r")
  from requestTime_keeps(3) [OF rt] assms(2) have "presigning r1" by (simp add: presigning_def)
  with assms(1) rt
  show "map_of (Form req') ''X-Amz-SignedHeaders'' = Some [signedHeaders lib (Header req')]"
    and "ph = ''UNSIGNED-PAYLOAD''"
    by (auto simp: Sign_prepare_def Let_def update_conv')
qed

lemma presigning_Header: "presigning (r\<lparr>Header := h\<rparr>) = presigning r"
  by (simp add: presigning_def)

lemma Sign_prepare_host_supplied:
  "Sign_prepare lib s (req\<lparr>Header := Header_Set (Header req) ''host'' v\<rparr>) payloadHash =
     Sign_prepare lib s req payloadHash"
  by (simp add: Sign_prepare_def Header_Set_def)

text \<open>
  Claim C10. \<open>Sign\<close> sets the host header to the \<open>Host\<close> field of the request as its
  first step, so that a value which the caller has set for that header changes nothing
  of the result. When the canonical request is built, in both modes, the \<open>Host\<close> field is
  the only value of the host header, and \<open>host\<close> is in the list of the signed headers.
  That list is the one placed in the \<open>X-Amz-SignedHeaders\<close> parameter of a presigned
  request, next to the signature over the canonical request, and in the \<open>Authorization\<close>
  header otherwise.
\<close>

theorem Sign_sets_host_before_signing:
  assumes "Sign_prepare lib s req payloadHash = (t, req', ph)"
  shows "Sign lib s (req\<lparr>Header := Header_Set (Header req) ''host'' v\<rparr>) payloadHash =
           Sign lib s req payloadHash \<and>
         Host req' = Host req \<and>
         map_of (Header req') ''Host'' = Some [Host req] \<and>
         Header_Get (Header req') ''host'' = Host req \<and>
         ''host'' \<in> set (signedHeaders_a lib (Header req')) \<and>
         (if presigning req
          then ph = ''UNSIGNED-PAYLOAD'' \<and>
               map_of (Form (Sign lib s req payloadHash)) ''X-Amz-SignedHeaders'' =
                 Some [signedHeaders lib (Header req')] \<and>
               map_of (Form (Sign lib s req payloadHash)) ''X-Amz-Signature'' =
                 Some [signature lib s t (stringToSign lib s t (canonicalRequest lib req' ph))]
          else map_of (Header (Sign lib s req payloadHash)) ''Authorization'' =
                 Some [authorization lib s (Header req') t
                         (signature lib s t (stringToSign lib s t (canonicalRequest lib req' ph)))])"
proof -
  note H = Sign_prepare_Host [OF assms]
  have same: "Sign lib s (req\<lparr>Header := Header_Set (Header req) ''host'' v\<rparr>) payloadHash =
           Sign lib s req payloadHash"
    by (simp only: Sign_def Sign_prepare_host_supplied)
  have get: "Header_Get (Header req') ''host'' = Host req"
    by (simp add: Header_Get_def canonical_keys H(1))
  have mem: "''host'' \<in> set (signedHeaders_a lib (Header req'))"
    using H(1) by (rule signedHeaders_a_Host)
  have pre: "presigning req' = presigning req" using assms by (rule Sign_prepare_presigning)
  have auth: "authorization lib s (canonicalHeaders_header lib (Header req')) t sig =
      authorization lib s (Header req') t sig" for sig
    by (simp add: authorization_def signedHeaders_canonicalHeaders_header)
  have fin: "if presigning req
          then ph = ''UNSIGNED-PAYLOAD'' \<and>
               map_of (Form (Sign lib s req payloadHash)) ''X-Amz-SignedHeaders'' =
                 Some [signedHeaders lib (Header req')] \<and>
               map_of (Form (Sign lib s req payloadHash)) ''X-Amz-Signature'' =
                 Some [signature lib s t (stringToSign lib s t (canonicalRequest lib req' ph))]
          else map_of (Header (Sign lib s req payloadHash)) ''Authorization'' =
                 Some [authorization lib s (Header req') t
                         (signature lib s t (stringToSign lib s t (canonicalRequest lib req' ph)))]"
  proof (cases "presigning req")
    case True
    with pre Sign_prepare_SignedHeaders [OF assms True] show ?thesis
      by (simp add: Sign_def assms Let_def update_conv' presigning_Header)
  next
    case False
    with pre Header_Set_same [of _ "''Authorization''"] show ?thesis
      by (simp add: Sign_def assms Let_def auth canonical_keys presigning_Header)
  qed
  from same H(2) H(1) get mem fin show ?thesis by (intro conjI)
qed

lemma Sign_example:
  "Sign_prepare example_library example_signer example_request ''p'' =
     (0, example_request\<lparr>Header :=
           [(''Host'', [''example.com'']), (''X-Amz-Date'', [''19700101T000000Z'']),
            (''X-Amz-Content-Sha256'', [''p''])]\<rparr>, ''p'')"
  "\<not> presigning example_request"
  "Host example_request = ''example.com''"
  "authorization example_library example_signer
     [(''Host'', [''example.com'']), (''X-Amz-Date'', [''19700101T000000Z'']),
      (''X-Amz-Content-Sha256'', [''p''])] 0 ''hmac'' =
   ''AWS4-HMAC-SHA256 Credential=AK/19700101/us-east-1/s3/aws4_request, '' @
   ''SignedHeaders=host;x-amz-content-sha256;x-amz-date, Signature=hmac''"
  "signature example_library example_signer 0 sts = ''hmac''"
  by code_simp+

text \<open>A request that comes with another host header, signed in the header.\<close>

theorem Sign_sets_host_before_signing_witness:
  "Sign_prepare example_library example_signer example_request ''p'' =
     (0, example_request\<lparr>Header :=
           [(''Host'', [''example.com'']), (''X-Amz-Date'', [''19700101T000000Z'']),
            (''X-Amz-Content-Sha256'', [''p''])]\<rparr>, ''p'') \<and>
   ''host'' \<in> set (signedHeaders_a example_library
      [(''Host'', [''example.com'']), (''X-Amz-Date'', [''19700101T000000Z'']),
       (''X-Amz-Content-Sha256'', [''p''])]) \<and>
   map_of (Header (Sign example_library example_signer example_request ''p'')) ''Authorization'' =
     Some [''AWS4-HMAC-SHA256 Credential=AK/19700101/us-east-1/s3/aws4_request, '' @
           ''SignedHeaders=host;x-amz-content-sha256;x-amz-date, Signature=hmac'']"
proof -
  let ?h = "[(''Host'', [''example.com'']), (''X-Amz-Date'', [''19700101T000000Z'']),
            (''X-Amz-Content-Sha256'', [''p''])]"
  let ?r = "example_request\<lparr>Header := ?h\<rparr>"
  note T = Sign_sets_host_before_signing [OF Sign_example(1)]
  have hr: "Header ?r = ?h" by simp
  have "''host'' \<in> set (signedHeaders_a example_library (Header ?r))"
    using T by blast
  then have mem: "''host'' \<in> set (signedHeaders_a example_library ?h)"
    by (simp only: hr)
  have "if presigning example_request
        then ''p'' = ''UNSIGNED-PAYLOAD'' \<and>
             map_of (Form (Sign example_library example_signer example_request ''p''))
               ''X-Amz-SignedHeaders'' = Some [signedHeaders example_library (Header ?r)] \<and>
             map_of (Form (Sign example_library example_signer example_request ''p''))
               ''X-Amz-Signature'' =
               Some [signature example_library example_signer 0
                       (stringToSign example_library example_signer 0
                          (canonicalRequest example_library ?r ''p''))]
        else map_of (Header (Sign example_library example_signer example_request ''p''))
               ''Authorization'' =
               Some [authorization example_library example_signer (Header ?r) 0
                       (signature example_library example_signer 0
                          (stringToSign example_library example_signer 0
                             (canonicalRequest example_library ?r ''p'')))]"
    using T by blast
  with Sign_example(2)
  have "map_of (Header (Sign example_library example_signer example_request ''p''))
          ''Authorization'' =
        Some [authorization example_library example_signer (Header ?r) 0
                (signature example_library example_signer 0
                   (stringToSign example_library example_signer 0
                      (canonicalRequest example_library ?r ''p'')))]"
    by simp
  then have "map_of (Header (Sign example_library example_signer example_request ''p''))
      ''Authorization'' =
     Some [''AWS4-HMAC-SHA256 Credential=AK/19700101/us-east-1/s3/aws4_request, '' @
           ''SignedHeaders=host;x-amz-content-sha256;x-amz-date, Signature=hmac'']"
    by (simp only: Sign_example(5) hr Sign_example(4))
  with Sign_example(1) mem show ?thesis by (intro conjI)
qed

end
